theory Spec2Isabelle
  imports Main
begin

section \<open>The suite tree of mini-mocha.js\<close>

text \<open>
  The file under verification is \<^verbatim>\<open>src/mini-mocha.js\<close>: a registration interface
  (\<^verbatim>\<open>describe\<close>, \<^verbatim>\<open>it\<close>, \<^verbatim>\<open>beforeEach\<close>, \<^verbatim>\<open>it.only\<close>, \<^verbatim>\<open>describe.only\<close>) that
  fills the global array \<^verbatim>\<open>tests\<close>, and the two asynchronous functions \<^verbatim>\<open>runSuite\<close>
  and \<^verbatim>\<open>runTests\<close> that walk it.

  A test body or a hook is foreign code. It is modelled by what the runner can observe of
  it: it transforms some world \<open>'w\<close> (everything the test code can read and write) and
  either returns or raises a value. Every \<^verbatim>\<open>await\<close> of the source is sequential, so one
  call is one step of the world. A body that never settles is outside the model.

  Of a raised value \<^verbatim>\<open>err\<close> the runner only ever reads \<^verbatim>\<open>err.message\<close>. Reading a
  property of \<^verbatim>\<open>null\<close> or \<^verbatim>\<open>undefined\<close> raises a TypeError; of any other value it
  yields the property or \<^verbatim>\<open>undefined\<close>. The message is taken to be a string when it is
  there.
\<close>

datatype thrown =
    Nullish                   \<comment> \<open>\<^verbatim>\<open>throw undefined\<close>, \<^verbatim>\<open>throw null\<close>, \<^verbatim>\<open>Promise.reject()\<close>\<close>
  | Thrown "string option"    \<comment> \<open>any other value, with its \<^verbatim>\<open>message\<close> property if it has one\<close>

type_synonym 'w action = "'w \<Rightarrow> thrown option \<times> 'w"

text \<open>
  \<^verbatim>\<open>it\<close> pushes \<^verbatim>\<open>{ name, fn }\<close>, \<^verbatim>\<open>it.only\<close> pushes \<^verbatim>\<open>{ name, fn, only: true }\<close>,
  \<^verbatim>\<open>describe\<close> pushes \<^verbatim>\<open>{ name, tests, beforeEachHooks, parent }\<close> and
  \<^verbatim>\<open>describe.only\<close> the same with \<^verbatim>\<open>only: true\<close>. The arrays are filled by \<^verbatim>\<open>push\<close>, so
  list order is registration order. The \<^verbatim>\<open>parent\<close> field is never read by the runner and
  is left out.
\<close>

datatype 'w node =
    Test string "'w action" bool
  | Suite string "'w node list" "'w action list" bool

fun node_name :: "'w node \<Rightarrow> string" where
  "node_name (Test nm fn b) = nm"
| "node_name (Suite nm ts hooks b) = nm"

fun node_only :: "'w node \<Rightarrow> bool" where
  "node_only (Test nm fn b) = b"
| "node_only (Suite nm ts hooks b) = b"

text \<open>\<^verbatim>\<open>t.fn\<close> as a condition: a function is truthy, a missing property is not.\<close>

fun has_fn :: "'w node \<Rightarrow> bool" where
  "has_fn (Test nm fn b) = True"
| "has_fn (Suite nm ts hooks b) = False"

text \<open>\<^verbatim>\<open>t.tests\<close> as a condition: an array is truthy, also the empty one.\<close>

fun has_tests :: "'w node \<Rightarrow> bool" where
  "has_tests (Test nm fn b) = False"
| "has_tests (Suite nm ts hooks b) = True"

text \<open>
  \<^verbatim>\<open>test.fn\<close> as the thing called. The runner calls it only on nodes that passed
  the filter \<^verbatim>\<open>t.fn\<close>; on a suite the call would raise a TypeError inside the
  \<^verbatim>\<open>try\<close> block.
\<close>

fun node_fn :: "'w node \<Rightarrow> 'w action" where
  "node_fn (Test nm fn b) = fn"
| "node_fn (Suite nm ts hooks b) = (\<lambda>w. (Some (Thrown (Some ''test.fn is not a function'')), w))"

text \<open>\<^verbatim>\<open>t.tests && t.tests.some((nested) => nested.only)\<close>\<close>

fun nested_only :: "'w node \<Rightarrow> bool" where
  "nested_only (Test nm fn b) = False"
| "nested_only (Suite nm ts hooks b) = list_ex node_only ts"

text \<open>\<^verbatim>\<open>subSuite.tests && subSuite.tests.some((nested) => nested.fn || nested.tests)\<close>\<close>

fun nested_any :: "'w node \<Rightarrow> bool" where
  "nested_any (Test nm fn b) = False"
| "nested_any (Suite nm ts hooks b) = list_ex (\<lambda>nested. has_fn nested \<or> has_tests nested) ts"

text \<open>
  The children of a node: the list \<^verbatim>\<open>tests\<close> of a suite. A test has none, as the guard
  \<^verbatim>\<open>t.tests &&\<close> of the two expressions above reads it.
\<close>

fun children_of :: "'w node \<Rightarrow> 'w node list" where
  "children_of (Test nm fn b) = []"
| "children_of (Suite nm ts hooks b) = ts"

section \<open>The filter of runSuite and runTests\<close>

text \<open>
  The local constants of \<^verbatim>\<open>runSuite\<close> (lines 46 to 57), as functions of
  \<^verbatim>\<open>suite.tests\<close> and the parameter \<^verbatim>\<open>only\<close>. \<^verbatim>\<open>runTests\<close> computes \<^verbatim>\<open>hasOnly\<close>
  by the same expression over the global \<^verbatim>\<open>tests\<close> (line 101).
\<close>

definition hasOnly :: "'w node list \<Rightarrow> bool" where
  "hasOnly ts = list_ex (\<lambda>t. node_only t \<or> nested_only t) ts"

definition testCases :: "'w node list \<Rightarrow> bool \<Rightarrow> 'w node list" where
  "testCases ts isOnly = filter (\<lambda>t. has_fn t \<and> (\<not> isOnly \<or> node_only t)) ts"

definition subSuites :: "'w node list \<Rightarrow> 'w node list" where
  "subSuites ts = filter (\<lambda>t. \<not> has_fn t) ts"

definition hasRunnableTests :: "'w node list \<Rightarrow> bool \<Rightarrow> bool \<Rightarrow> bool" where
  "hasRunnableTests ts only isOnly =
     (testCases ts isOnly \<noteq> [] \<or>
      list_ex (\<lambda>subSuite. nested_any subSuite \<and> (\<not> only \<or> nested_only subSuite)) (subSuites ts))"

section \<open>Text output\<close>

text \<open>
  A string is a list of bytes; the check mark U+2713 is its three UTF-8 bytes, a line
  feed is byte 10. Numbers are counters that start at 0 or 1 and only grow by one, so
  they are naturals and their template-literal rendering is the decimal numeral.
\<close>

definition check_mark :: string where
  "check_mark = [CHR 0xE2, CHR 0x9C, CHR 0x93]"

definition line_feed :: string where
  "line_feed = [CHR 0x0A]"

definition digit_char :: "nat \<Rightarrow> char" where
  "digit_char d = ''0123456789'' ! d"

fun show_nat :: "nat \<Rightarrow> string" where
  "show_nat n = (if n < 10 then [digit_char n] else show_nat (n div 10) @ [digit_char (n mod 10)])"

declare show_nat.simps [simp del]

text \<open>\<^verbatim>\<open>'  '.repeat(indent)\<close>\<close>

definition repeat_indent :: "nat \<Rightarrow> string" where
  "repeat_indent n = concat (replicate n ''  '')"

section \<open>The state of a run\<close>

text \<open>
  The objects pushed on the global \<^verbatim>\<open>failures\<close>, and the globals themselves together
  with the output sink and the world of the test code. The field \<open>calls\<close> is an
  observation added by the model: it lists, in order, every call the runner makes into
  test code (\<^verbatim>\<open>await hook()\<close> and \<^verbatim>\<open>await test.fn()\<close>); a hook is named by its suite
  and its position in \<^verbatim>\<open>beforeEachHooks\<close>.
\<close>

record failure =
  index :: nat
  name :: string
  message :: string
  indent :: nat
  details :: string

datatype call = HookCall string nat | TestCall string

record 'w state =
  world :: 'w
  failureIndex :: nat
  failures :: "failure list"
  console :: "string list"
  calls :: "call list"

record result =
  passed :: nat
  failed :: nat

definition fresh :: "'w \<Rightarrow> 'w state" where
  "fresh w = \<lparr>world = w, failureIndex = 1, failures = [], console = [], calls = []\<rparr>"

definition log :: "string \<Rightarrow> 'w state \<Rightarrow> 'w state" where
  "log line s = s\<lparr>console := console s @ [line]\<rparr>"

definition invoke :: "call \<Rightarrow> 'w action \<Rightarrow> 'w state \<Rightarrow> thrown option \<times> 'w state" where
  "invoke c f s = (case f (world s) of (r, w') \<Rightarrow> (r, s\<lparr>world := w', calls := calls s @ [c]\<rparr>))"

text \<open>
  A \<^verbatim>\<open>for ... of\<close> loop whose body may raise: the first exception that escapes the
  body ends the loop and the function around it. \<open>Inl\<close> carries the state in which the
  exception left the runner.
\<close>

fun for_of :: "('a \<Rightarrow> 's \<Rightarrow> 'e + 's) \<Rightarrow> 'a list \<Rightarrow> 's \<Rightarrow> 'e + 's" where
  "for_of body [] s = Inr s"
| "for_of body (x # xs) s = (case body x s of Inl e \<Rightarrow> Inl e | Inr s' \<Rightarrow> for_of body xs s')"

lemma for_of_cong [fundef_cong]:
  "xs = ys \<Longrightarrow> s = t \<Longrightarrow> (\<And>x u. x \<in> set ys \<Longrightarrow> f x u = g x u) \<Longrightarrow> for_of f xs s = for_of g ys t"
  by (induction ys arbitrary: xs s t) (auto split: sum.splits)

section \<open>Running one test\<close>

text \<open>\<^verbatim>\<open>err.message || dflt\<close>: the empty string is as falsy as \<^verbatim>\<open>undefined\<close>.\<close>

fun message_or :: "string option \<Rightarrow> string \<Rightarrow> string" where
  "message_or None dflt = dflt"
| "message_or (Some m) dflt = (if m = [] then dflt else m)"

text \<open>
  The body of a \<^verbatim>\<open>catch (err)\<close> block (lines 75 to 84 and 117 to 126). The two copies
  differ in the text before the failure index and in the \<^verbatim>\<open>indent\<close> they store. The
  line is printed first; building the object literal then reads \<^verbatim>\<open>err.message\<close>, which
  raises a TypeError for a nullish \<^verbatim>\<open>err\<close>, from inside the handler and so out of the
  runner.
\<close>

definition on_catch ::
  "string \<Rightarrow> nat \<Rightarrow> string \<Rightarrow> thrown \<Rightarrow> 'w state \<times> result \<Rightarrow> 'w state + 'w state \<times> result" where
  "on_catch pre ind nm err sr =
     (case sr of (s, r) \<Rightarrow>
        let s1 = log (pre @ show_nat (failureIndex s) @ '') '' @ nm) s in
        case err of
          Nullish \<Rightarrow> Inl s1
        | Thrown m \<Rightarrow>
            Inr (s1\<lparr>failures := failures s1 @
                      [\<lparr>index = failureIndex s1, name = nm,
                        message = message_or m ''undefined'', indent = ind,
                        details = ''AssertionError [ERR_ASSERTION]: '' @ message_or m ''No message''\<rparr>],
                    failureIndex := failureIndex s1 + 1\<rparr>,
                 r\<lparr>failed := failed r + 1\<rparr>))"

text \<open>The two statements after the awaited calls in the \<^verbatim>\<open>try\<close> block.\<close>

definition on_pass :: "string \<Rightarrow> string \<Rightarrow> 'w state \<times> result \<Rightarrow> 'w state \<times> result" where
  "on_pass pre nm sr =
     (case sr of (s, r) \<Rightarrow> (log (pre @ check_mark @ '' '' @ nm) s, r\<lparr>passed := passed r + 1\<rparr>))"

text \<open>
  \<^verbatim>\<open>for (const hook of suite.beforeEachHooks) await hook();\<close> inside the \<^verbatim>\<open>try\<close>
  block: the first hook that raises ends the loop with the raised value.
\<close>

fun run_hooks :: "string \<Rightarrow> nat \<Rightarrow> 'w action list \<Rightarrow> 'w state \<Rightarrow> thrown option \<times> 'w state" where
  "run_hooks sn k [] s = (None, s)"
| "run_hooks sn k (hook # hooks) s =
     (case invoke (HookCall sn k) hook s of
        (None, s') \<Rightarrow> run_hooks sn (k + 1) hooks s'
      | (Some err, s') \<Rightarrow> (Some err, s'))"

text \<open>The awaited calls of the \<^verbatim>\<open>try\<close> block of \<^verbatim>\<open>runSuite\<close> (lines 68 to 71).\<close>

definition try_calls :: "string \<Rightarrow> 'w action list \<Rightarrow> 'w node \<Rightarrow> 'w state \<Rightarrow> thrown option \<times> 'w state" where
  "try_calls sn hooks test s =
     (case run_hooks sn 0 hooks s of
        (None, s') \<Rightarrow> invoke (TestCall (node_name test)) (node_fn test) s'
      | (Some err, s') \<Rightarrow> (Some err, s'))"

text \<open>One iteration of the loop over \<^verbatim>\<open>testCases\<close> in \<^verbatim>\<open>runSuite\<close> (lines 67 to 85).\<close>

definition run_test ::
  "string \<Rightarrow> 'w action list \<Rightarrow> nat \<Rightarrow> 'w node \<Rightarrow> 'w state \<times> result \<Rightarrow> 'w state + 'w state \<times> result" where
  "run_test sn hooks ind test sr =
     (case sr of (s, r) \<Rightarrow>
        case try_calls sn hooks test s of
          (None, s') \<Rightarrow> Inr (on_pass (repeat_indent (ind + 1)) (node_name test) (s', r))
        | (Some err, s') \<Rightarrow> on_catch (repeat_indent (ind + 1)) (ind + 1) (node_name test) err (s', r))"

text \<open>
  One iteration of the loop over \<^verbatim>\<open>topLevelTests\<close> in \<^verbatim>\<open>runTests\<close> (lines 111 to 127):
  no hooks, no indentation before the check mark, two blanks before a failure index, and
  \<^verbatim>\<open>indent: 0\<close> in the record.
\<close>

definition run_top_test ::
  "bool \<Rightarrow> 'w node \<Rightarrow> 'w state \<times> result \<Rightarrow> 'w state + 'w state \<times> result" where
  "run_top_test isOnly test sr =
     (if isOnly \<and> \<not> node_only test then Inr sr
      else case sr of (s, r) \<Rightarrow>
        case invoke (TestCall (node_name test)) (node_fn test) s of
          (None, s') \<Rightarrow> Inr (on_pass [] (node_name test) (s', r))
        | (Some err, s') \<Rightarrow> on_catch ''  '' 0 (node_name test) err (s', r))"

section \<open>runSuite and runTests\<close>

definition no_result :: result where
  "no_result = \<lparr>passed = 0, failed = 0\<rparr>"

text \<open>\<^verbatim>\<open>passed += subResult.passed; failed += subResult.failed;\<close>\<close>

definition add_result :: "result \<Rightarrow> result \<Rightarrow> result" where
  "add_result r subResult = \<lparr>passed = passed r + passed subResult, failed = failed r + failed subResult\<rparr>"

text \<open>
  \<^verbatim>\<open>runSuite(suite, indent, only)\<close>. Called on a node without \<^verbatim>\<open>tests\<close> it raises a
  TypeError at line 46; the runner never does so, since it only calls it on the nodes
  that failed the filter \<^verbatim>\<open>t.fn\<close>.
\<close>

lemma in_subSuites [termination_simp]:
  "x \<in> set (subSuites ts) \<longleftrightarrow> x \<in> set ts \<and> \<not> has_fn x"
  by (simp add: subSuites_def)

fun runSuite :: "'w node \<Rightarrow> nat \<Rightarrow> bool \<Rightarrow> 'w state \<Rightarrow> 'w state + 'w state \<times> result" where
  "runSuite (Test nm fn b) ind only s = Inl s"
| "runSuite (Suite nm ts hooks b) ind only s =
     (let isOnly = (hasOnly ts \<or> only) in
      if \<not> hasRunnableTests ts only isOnly then Inr (s, no_result)
      else
        case for_of (run_test nm hooks ind) (testCases ts isOnly) (log (repeat_indent ind @ nm) s, no_result) of
          Inl e \<Rightarrow> Inl e
        | Inr sr \<Rightarrow>
            for_of (\<lambda>subSuite sr'. case sr' of (s', r) \<Rightarrow>
                      (case runSuite subSuite (ind + 1) isOnly s' of
                         Inl e \<Rightarrow> Inl e
                       | Inr (s'', subResult) \<Rightarrow> Inr (s'', add_result r subResult)))
                   (subSuites ts) sr)"

text \<open>Lines 101 to 135 of \<^verbatim>\<open>runTests\<close>: the two loops, with the totals they leave.\<close>

definition run_forest :: "'w node list \<Rightarrow> 'w state \<Rightarrow> 'w state + 'w state \<times> result" where
  "run_forest tests s =
     (let isOnly = hasOnly tests;
          topLevelTests = filter has_fn tests;
          topLevelSuites = filter (\<lambda>t. \<not> has_fn t) tests in
      case for_of (run_top_test isOnly) topLevelTests (s, no_result) of
        Inl e \<Rightarrow> Inl e
      | Inr sr \<Rightarrow>
          for_of (\<lambda>suite sr'. case sr' of (s', r) \<Rightarrow>
                    (case runSuite suite 1 isOnly s' of
                       Inl e \<Rightarrow> Inl e
                     | Inr (s'', suiteResult) \<Rightarrow> Inr (s'', add_result r suiteResult)))
                 topLevelSuites sr)"

text \<open>Lines 138 to 145: the summary and the block of failure details.\<close>

definition log_failure :: "failure \<Rightarrow> 'w state \<Rightarrow> 'w state" where
  "log_failure f s =
     log (''      '' @ details f)
       (log (line_feed @ ''  '' @ show_nat (index f) @ '') '' @ name f @ '':'' @ line_feed) s)"

definition report :: "'w state \<Rightarrow> result \<Rightarrow> 'w state" where
  "report s totals =
     (let s1 = log (line_feed @ ''  '' @ show_nat (passed totals) @ '' passing'') s in
      if failed totals > 0
      then fold log_failure (failures s1) (log (''  '' @ show_nat (failed totals) @ '' failing'') s1)
      else s1)"

definition runTests :: "'w node list \<Rightarrow> 'w state \<Rightarrow> 'w state + 'w state" where
  "runTests tests s =
     (case run_forest tests s of
        Inl e \<Rightarrow> Inl e
      | Inr (s', totals) \<Rightarrow> Inr (report s' totals))"

section \<open>The plan of a run\<close>

text \<open>
  What the filter decides, written down as a flat list before anything runs: which suite
  names are printed and which tests are taken up, in which order. It is computed from the
  tree alone, by the filter expressions of the source. One step of it is the printing of
  a suite name, one iteration of the test loop of \<^verbatim>\<open>runSuite\<close> (with the hooks and the
  indentation of that suite), or one iteration of the loop over \<^verbatim>\<open>topLevelTests\<close> that
  is not skipped by \<^verbatim>\<open>continue\<close>. The runnable tests of a forest are the test steps of
  its plan.
\<close>

datatype 'w step =
    Enter string nat
  | InSuite string "'w action list" nat "'w node"
  | TopLevel "'w node"

fun is_run :: "'w step \<Rightarrow> bool" where
  "is_run (Enter nm ind) = False"
| "is_run (InSuite sn hooks ind test) = True"
| "is_run (TopLevel test) = True"

fun exec_step :: "'w step \<Rightarrow> 'w state \<times> result \<Rightarrow> 'w state + 'w state \<times> result" where
  "exec_step (Enter nm ind) sr = (case sr of (s, r) \<Rightarrow> Inr (log (repeat_indent ind @ nm) s, r))"
| "exec_step (InSuite sn hooks ind test) sr = run_test sn hooks ind test sr"
| "exec_step (TopLevel test) sr = run_top_test False test sr"

fun plan_suite :: "'w node \<Rightarrow> nat \<Rightarrow> bool \<Rightarrow> 'w step list" where
  "plan_suite (Test nm fn b) ind only = []"
| "plan_suite (Suite nm ts hooks b) ind only =
    (let isOnly = (hasOnly ts \<or> only) in
     if \<not> hasRunnableTests ts only isOnly then []
     else Enter nm ind # map (InSuite nm hooks ind) (testCases ts isOnly)
            @ concat (map (\<lambda>sub. plan_suite sub (ind + 1) isOnly) (subSuites ts)))"

definition plan_forest :: "'w node list \<Rightarrow> 'w step list" where
  "plan_forest tests =
     (let isOnly = hasOnly tests in
      map TopLevel (filter (\<lambda>t. \<not> (isOnly \<and> \<not> node_only t)) (filter has_fn tests))
        @ concat (map (\<lambda>suite. plan_suite suite 1 isOnly) (filter (\<lambda>t. \<not> has_fn t) tests)))"

definition runnable :: "'w node list \<Rightarrow> 'w step list" where
  "runnable tests = filter is_run (plan_forest tests)"

section \<open>Properties of test code\<close>

text \<open>
  Two things a hook or a test body may be known never to do: raise at all, and raise a
  nullish value.
\<close>

definition never_raises :: "'w action \<Rightarrow> bool" where
  "never_raises f \<longleftrightarrow> (\<forall>w. fst (f w) = None)"

definition never_nullish :: "'w action \<Rightarrow> bool" where
  "never_nullish f \<longleftrightarrow> (\<forall>w. fst (f w) \<noteq> Some Nullish)"

text \<open>The hooks a step runs, all the test code it may call, and the calls it makes when its hooks return.\<close>

fun step_hooks :: "'w step \<Rightarrow> 'w action list" where
  "step_hooks (Enter nm ind) = []"
| "step_hooks (InSuite sn hooks ind test) = hooks"
| "step_hooks (TopLevel test) = []"

fun step_actions :: "'w step \<Rightarrow> 'w action list" where
  "step_actions (Enter nm ind) = []"
| "step_actions (InSuite sn hooks ind test) = hooks @ [node_fn test]"
| "step_actions (TopLevel test) = [node_fn test]"

fun step_calls :: "'w step \<Rightarrow> call list" where
  "step_calls (Enter nm ind) = []"
| "step_calls (InSuite sn hooks ind test) = map (HookCall sn) [0..<length hooks] @ [TestCall (node_name test)]"
| "step_calls (TopLevel test) = [TestCall (node_name test)]"

section \<open>The form of a failure record\<close>

text \<open>
  A record as a \<^verbatim>\<open>catch\<close> block builds it from some raised value, and the state a run
  ends in, whether it is complete or not.
\<close>

definition recorded_form :: "failure \<Rightarrow> bool" where
  "recorded_form f \<longleftrightarrow>
     (\<exists>m. message f = message_or m ''undefined'' \<and>
          details f = ''AssertionError [ERR_ASSERTION]: '' @ message_or m ''No message'')"

fun last_state :: "'w state + 'w state \<times> result \<Rightarrow> 'w state" where
  "last_state (Inl s) = s"
| "last_state (Inr (s, r)) = s"

section \<open>Runnable content as the specification words it\<close>

text \<open>
  The specification's notion of a Group with runnable content, for comparison with
  \<^verbatim>\<open>hasRunnableTests\<close>: a Group has runnable content when one of its Case children
  passes the filter of its exclusive mode, or a nested Group has runnable content, at any
  depth. The exclusive mode of each Group is the one the source computes.
\<close>

fun spec_runnable_content :: "'w node \<Rightarrow> bool \<Rightarrow> bool" where
  "spec_runnable_content (Test nm fn b) only = False"
| "spec_runnable_content (Suite nm ts hooks b) only =
     (let isOnly = (hasOnly ts \<or> only) in
      testCases ts isOnly \<noteq> [] \<or> list_ex (\<lambda>sub. spec_runnable_content sub isOnly) (subSuites ts))"

section \<open>Test bodies and forests used in examples\<close>

definition passes :: "'w action" where
  "passes w = (None, w)"

definition raises :: "thrown \<Rightarrow> 'w action" where
  "raises err w = (Some err, w)"

text \<open>A body that writes its name into a world that is a list of names.\<close>

definition writes :: "string \<Rightarrow> string list action" where
  "writes nm w = (None, w @ [nm])"

text \<open>The two lines that \<^verbatim>\<open>runTests\<close> prints for one entry of \<^verbatim>\<open>failures\<close>.\<close>

definition failure_lines :: "failure \<Rightarrow> string list" where
  "failure_lines f =
     [line_feed @ ''  '' @ show_nat (index f) @ '') '' @ name f @ '':'' @ line_feed,
      ''      '' @ details f]"

text \<open>
  The scenario of the specification: a passing top-level test \<^verbatim>\<open>a\<close> and a suite \<^verbatim>\<open>G\<close>
  with a test \<^verbatim>\<open>b\<close> that raises an error with message \<^verbatim>\<open>boom\<close> and a passing test
  \<^verbatim>\<open>c\<close>.
\<close>

definition scenario :: "unit node list" where
  "scenario =
     [Test ''a'' passes False,
      Suite ''G'' [Test ''b'' (raises (Thrown (Some ''boom''))) False, Test ''c'' passes False] [] False]"

text \<open>
  A forest with exclusive tests: \<^verbatim>\<open>it('a')\<close>, \<^verbatim>\<open>it.only('b')\<close> that raises, and a suite
  \<^verbatim>\<open>G\<close> with \<^verbatim>\<open>it.only('c')\<close> and \<^verbatim>\<open>it('d')\<close>.
\<close>

definition mixed_forest :: "unit node list" where
  "mixed_forest =
     [Test ''a'' passes False, Test ''b'' (raises (Thrown (Some ''no''))) True,
      Suite ''G'' [Test ''c'' passes True, Test ''d'' passes False] [] False]"

text \<open>
  \<^verbatim>\<open>it('a'); describe('G', () => describe('H', () => it.only('x')))\<close>: the only
  exclusive node is at depth three.
\<close>

definition deep_only_forest :: "unit node list" where
  "deep_only_forest =
     [Test ''a'' passes False,
      Suite ''G'' [Suite ''H'' [Test ''x'' passes True] [] False] [] False]"

text \<open>
  \<^verbatim>\<open>describe('G', () => describe('H', () => describe('K', () => {})))\<close>: three nested
  suites and no test at all; and the same nest with \<^verbatim>\<open>it.only('x')\<close> in the innermost
  suite.
\<close>

definition empty_nest :: "unit node" where
  "empty_nest = Suite ''G'' [Suite ''H'' [Suite ''K'' [] [] False] [] False] [] False"

definition buried :: "unit node" where
  "buried = Suite ''G'' [Suite ''H'' [Suite ''K'' [Test ''x'' passes True] [] False] [] False] [] False"

text \<open>
  The children of a suite with \<^verbatim>\<open>it('a')\<close> and \<^verbatim>\<open>describe('H', () => it.only('x'))\<close>:
  no child is exclusive, a grandchild is. And the children of a suite with an exclusive
  test among them.
\<close>

definition lookahead_children :: "unit node list" where
  "lookahead_children = [Test ''a'' passes False, Suite ''H'' [Test ''x'' passes True] [] False]"

definition exclusive_children :: "unit node list" where
  "exclusive_children =
     [Test ''a'' passes False, Test ''b'' passes True,
      Suite ''H'' [Test ''x'' passes False] [] False]"

text \<open>The same children with no exclusive node anywhere.\<close>

definition plain_children :: "unit node list" where
  "plain_children = [Test ''a'' passes False, Suite ''H'' [Test ''x'' passes False] [] False]"

text \<open>
  \<^verbatim>\<open>it('A'); describe('B', () => it('B1')); it('C')\<close>, and the same nodes registered
  with the tests first. Each body writes its name into the world.
\<close>

definition interleaved :: "string list node list" where
  "interleaved =
     [Test ''A'' (writes ''A'') False,
      Suite ''B'' [Test ''B1'' (writes ''B1'') False] [] False,
      Test ''C'' (writes ''C'') False]"

definition cases_first :: "string list node list" where
  "cases_first =
     [Test ''A'' (writes ''A'') False,
      Test ''C'' (writes ''C'') False,
      Suite ''B'' [Test ''B1'' (writes ''B1'') False] [] False]"

text \<open>
  A suite \<^verbatim>\<open>G\<close> with hooks \<^verbatim>\<open>h1\<close>, \<^verbatim>\<open>h2\<close>, tests \<^verbatim>\<open>c1\<close>, \<^verbatim>\<open>c2\<close> and, registered between
  them, a suite \<^verbatim>\<open>H\<close> with hook \<^verbatim>\<open>k\<close> and test \<^verbatim>\<open>d\<close>.
\<close>

definition hooked_suite :: "string list node" where
  "hooked_suite =
     Suite ''G''
       [Test ''c1'' (writes ''c1'') False,
        Suite ''H'' [Test ''d'' (writes ''d'') False] [writes ''k''] False,
        Test ''c2'' (writes ''c2'') False]
       [writes ''h1'', writes ''h2''] False"

text \<open>
  \<^verbatim>\<open>describe('G', () => { beforeEach(() => Promise.reject()); beforeEach(ok); it('c'); it('d') })\<close>:
  the first hook rejects with \<^verbatim>\<open>undefined\<close>.
\<close>

definition nullish_hook_suite :: "unit node" where
  "nullish_hook_suite =
     Suite ''G'' [Test ''c'' passes False, Test ''d'' passes False] [raises Nullish, passes] False"

text \<open>\<^verbatim>\<open>it('t', () => { throw {} })\<close>: the raised value has no message.\<close>

definition silent_failure :: "unit node list" where
  "silent_failure = [Test ''t'' (raises (Thrown None)) False]"

text \<open>\<^verbatim>\<open>it('e', () => { throw new Error('') })\<close>: the raised value has an empty message.\<close>

definition empty_message_failure :: "unit node list" where
  "empty_message_failure = [Test ''e'' (raises (Thrown (Some ''''))) False]"

section \<open>Loops\<close>

lemma for_of_append:
  "for_of f (xs @ ys) s = (case for_of f xs s of Inl e \<Rightarrow> Inl e | Inr s' \<Rightarrow> for_of f ys s')"
  by (induction xs arbitrary: s) (auto split: sum.splits)

lemma for_of_map: "for_of f (map g xs) s = for_of (\<lambda>x. f (g x)) xs s"
  by (induction xs arbitrary: s) (auto split: sum.splits)

lemma for_of_concat_map:
  "for_of f (concat (map g xs)) s = for_of (\<lambda>x. for_of f (g x)) xs s"
  by (induction xs arbitrary: s) (auto simp: for_of_append split: sum.splits)

lemma concat_map_concat:
  "concat (map f (concat xss)) = concat (map (\<lambda>xs. concat (map f xs)) xss)"
  by (induction xss) auto

lemma upt_shift: "[k..<k + Suc n] = k # [k + 1..<k + 1 + n]"
  using upt_conv_Cons [of k "k + Suc n"] by (simp del: upt_Suc)

lemma list_ex_by_kind:
  "list_ex P xs \<longleftrightarrow> list_ex P (filter Q xs) \<or> list_ex P (filter (\<lambda>x. \<not> Q x) xs)"
  by (auto simp: list_ex_iff)

section \<open>A run is the sequential execution of its plan\<close>

text \<open>
  The counters of a loop only ever grow by what the loop adds: running from counters
  \<open>add_result r0 r\<close> is running from \<open>r\<close> and adding \<open>r0\<close> afterwards.
\<close>

definition shift :: "result \<Rightarrow> 'w state + 'w state \<times> result \<Rightarrow> 'w state + 'w state \<times> result" where
  "shift r0 x = (case x of Inl e \<Rightarrow> Inl e | Inr (s, r) \<Rightarrow> Inr (s, add_result r0 r))"

lemma add_result_no_result [simp]: "add_result r no_result = r"
  by (simp add: add_result_def no_result_def)

lemma on_catch_shift:
  "on_catch pre ind nm err (s, add_result r0 r) = shift r0 (on_catch pre ind nm err (s, r))"
  by (cases err) (simp_all add: on_catch_def shift_def add_result_def Let_def)

lemma on_pass_shift:
  "on_pass pre nm (s, add_result r0 r) = (case on_pass pre nm (s, r) of (s', r') \<Rightarrow> (s', add_result r0 r'))"
  by (simp add: on_pass_def add_result_def)

lemma run_test_shift:
  "run_test sn hooks ind t (s, add_result r0 r) = shift r0 (run_test sn hooks ind t (s, r))"
  by (auto simp: run_test_def on_catch_shift on_pass_shift shift_def split: prod.splits option.splits)

lemma run_top_test_shift:
  "run_top_test False t (s, add_result r0 r) = shift r0 (run_top_test False t (s, r))"
  by (auto simp: run_top_test_def on_catch_shift on_pass_shift shift_def split: prod.splits option.splits)

lemma exec_step_shift:
  "exec_step st (s, add_result r0 r) = shift r0 (exec_step st (s, r))"
  by (cases st) (simp_all add: run_test_shift run_top_test_shift, simp add: shift_def)

lemma for_of_exec_shift:
  "for_of exec_step p (s, add_result r0 r) = shift r0 (for_of exec_step p (s, r))"
proof (induction p arbitrary: s r)
  case Nil
  show ?case by (simp add: shift_def)
next
  case (Cons st p)
  show ?case
  proof (cases "exec_step st (s, r)")
    case (Inl e)
    then show ?thesis by (simp add: exec_step_shift shift_def)
  next
    case (Inr sr)
    obtain s' r' where sr: "sr = (s', r')" by (cases sr)
    with Inr Cons.IH [of s' r'] show ?thesis by (simp add: exec_step_shift shift_def)
  qed
qed

lemma exec_step_InSuite: "(\<lambda>x. exec_step (InSuite sn hooks ind x)) = run_test sn hooks ind"
  by (simp add: fun_eq_iff)

lemma exec_step_TopLevel: "(\<lambda>x. exec_step (TopLevel x)) = run_top_test False"
  by (simp add: fun_eq_iff)

lemma runSuite_plan:
  "runSuite suite ind only s =
     (if has_fn suite then Inl s else for_of exec_step (plan_suite suite ind only) (s, no_result))"
proof (induction suite ind only s rule: runSuite.induct)
  case (1 nm fn b ind only s)
  show ?case by simp
next
  case (2 nm ts hooks b ind only s)
  define isOnly where "isOnly = (hasOnly ts \<or> only)"
  show ?case
  proof (cases "hasRunnableTests ts only isOnly")
    case False
    then show ?thesis by (simp add: isOnly_def)
  next
    case shown: True
    let ?start = "(log (repeat_indent ind @ nm) s, no_result)"
    show ?thesis
    proof (cases "for_of (run_test nm hooks ind) (testCases ts isOnly) ?start")
      case (Inl e)
      with shown show ?thesis
        by (simp add: isOnly_def [symmetric] for_of_append for_of_map exec_step_InSuite)
    next
      case (Inr sr)
      have body: "(case u of (s', r) \<Rightarrow>
                    (case runSuite sub (ind + 1) isOnly s' of
                       Inl e \<Rightarrow> Inl e
                     | Inr (s'', subResult) \<Rightarrow> Inr (s'', add_result r subResult)))
                  = for_of exec_step (plan_suite sub (ind + 1) isOnly) u"
        if "sub \<in> set (subSuites ts)" for sub u
      proof -
        obtain s' r where u: "u = (s', r)" by (cases u)
        from that have nf: "\<not> has_fn sub" by (simp add: in_subSuites)
        have "runSuite sub (ind + 1) isOnly s' =
              for_of exec_step (plan_suite sub (ind + 1) isOnly) (s', no_result)"
          using "2.IH" [OF isOnly_def _ Inr [unfolded isOnly_def [symmetric]] that, of s' r] shown nf
          by (simp add: isOnly_def)
        then show ?thesis
          using for_of_exec_shift [of "plan_suite sub (ind + 1) isOnly" s' r no_result]
          by (simp add: u shift_def split: sum.splits prod.splits)
      qed
      have "for_of (\<lambda>subSuite sr'. case sr' of (s', r) \<Rightarrow>
                      (case runSuite subSuite (ind + 1) isOnly s' of
                         Inl e \<Rightarrow> Inl e
                       | Inr (s'', subResult) \<Rightarrow> Inr (s'', add_result r subResult)))
              (subSuites ts) sr
            = for_of (\<lambda>sub. for_of exec_step (plan_suite sub (ind + 1) isOnly)) (subSuites ts) sr"
        by (rule for_of_cong [OF refl refl]) (rule body)
      with shown Inr show ?thesis
        by (simp add: isOnly_def [symmetric] for_of_append for_of_map for_of_concat_map exec_step_InSuite)
    qed
  qed
qed

lemma run_top_test_skip:
  "run_top_test isOnly t u = (if isOnly \<and> \<not> node_only t then Inr u else run_top_test False t u)"
  by (simp add: run_top_test_def)

lemma top_loop_skip:
  "for_of (run_top_test isOnly) xs u =
   for_of (run_top_test False) (filter (\<lambda>t. \<not> (isOnly \<and> \<not> node_only t)) xs) u"
  by (induction xs arbitrary: u) (auto simp: run_top_test_skip [of isOnly] split: sum.splits)

lemma run_forest_plan:
  "run_forest tests s = for_of exec_step (plan_forest tests) (s, no_result)"
proof -
  define isOnly where "isOnly = hasOnly tests"
  have top: "for_of (run_top_test isOnly) (filter has_fn tests) u
             = for_of exec_step (map TopLevel (filter (\<lambda>t. \<not> (isOnly \<and> \<not> node_only t)) (filter has_fn tests))) u" for u
    by (simp add: for_of_map exec_step_TopLevel top_loop_skip [of isOnly])
  have body: "(case u of (s', r) \<Rightarrow>
                 (case runSuite suite 1 isOnly s' of
                    Inl e \<Rightarrow> Inl e
                  | Inr (s'', suiteResult) \<Rightarrow> Inr (s'', add_result r suiteResult)))
              = for_of exec_step (plan_suite suite 1 isOnly) u"
    if "suite \<in> set (filter (\<lambda>t. \<not> has_fn t) tests)" for suite u
  proof -
    obtain s' r where u: "u = (s', r)" by (cases u)
    from that have "\<not> has_fn suite" by simp
    then have "runSuite suite 1 isOnly s' = for_of exec_step (plan_suite suite 1 isOnly) (s', no_result)"
      by (simp add: runSuite_plan)
    then show ?thesis
      using for_of_exec_shift [of "plan_suite suite 1 isOnly" s' r no_result]
      by (simp add: u shift_def split: sum.splits prod.splits)
  qed
  have subs: "for_of (\<lambda>suite sr'. case sr' of (s', r) \<Rightarrow>
                    (case runSuite suite 1 isOnly s' of
                       Inl e \<Rightarrow> Inl e
                     | Inr (s'', suiteResult) \<Rightarrow> Inr (s'', add_result r suiteResult)))
                 (filter (\<lambda>t. \<not> has_fn t) tests) u
              = for_of (\<lambda>suite. for_of exec_step (plan_suite suite 1 isOnly)) (filter (\<lambda>t. \<not> has_fn t) tests) u" for u
    by (rule for_of_cong [OF refl refl]) (rule body)
  show ?thesis
    unfolding run_forest_def plan_forest_def Let_def isOnly_def [symmetric]
      for_of_append for_of_concat_map top subs
    by (rule refl)
qed

section \<open>What the filter reads\<close>

lemma nested_only_children: "nested_only t \<longleftrightarrow> (\<exists>u\<in>set (children_of t). node_only u)"
  by (cases t) (simp_all add: list_ex_iff)

lemma hasOnly_children:
  "hasOnly ts \<longleftrightarrow>
     (\<exists>t\<in>set ts. node_only t) \<or> (\<exists>t\<in>set ts. \<exists>u\<in>set (children_of t). node_only u)"
  unfolding hasOnly_def list_ex_iff nested_only_children by blast


lemma filter_exclusive_same:
  fixes ts :: "'w node list"
  defines "ts' \<equiv> filter (\<lambda>t. \<not> has_fn t \<or> node_only t) ts"
  shows "hasOnly ts' = hasOnly ts"
    and "subSuites ts' = subSuites ts"
    and "testCases ts' True = testCases ts True"
proof -
  have "\<not> node_only t \<and> has_fn t \<Longrightarrow> \<not> nested_only t" for t :: "'w node" by (cases t) auto
  then show "hasOnly ts' = hasOnly ts"
    unfolding ts'_def hasOnly_def list_ex_iff by auto
  show "subSuites ts' = subSuites ts"
    unfolding ts'_def subSuites_def by (induction ts) auto
  show "testCases ts' True = testCases ts True"
    unfolding ts'_def testCases_def by (induction ts) auto
qed

lemma runSuite_depends:
  assumes "hasOnly ts' = hasOnly ts" "subSuites ts' = subSuites ts"
    "testCases ts' (hasOnly ts \<or> only) = testCases ts (hasOnly ts \<or> only)"
  shows "runSuite (Suite nm ts' hooks b) ind only s = runSuite (Suite nm ts hooks b) ind only s"
  using assms by (simp add: hasRunnableTests_def Let_def cong: sum.case_cong)

lemma testCases_of_tests:
  "testCases ts isOnly = filter (\<lambda>t. \<not> isOnly \<or> node_only t) (filter has_fn ts)"
  by (simp add: testCases_def conj_commute)

lemma same_batches:
  assumes "filter has_fn ts' = filter has_fn ts"
      and "filter (\<lambda>t. \<not> has_fn t) ts' = filter (\<lambda>t. \<not> has_fn t) ts"
  shows "hasOnly ts' = hasOnly ts" and "subSuites ts' = subSuites ts"
    and "testCases ts' isOnly = testCases ts isOnly"
proof -
  show "hasOnly ts' = hasOnly ts"
    unfolding hasOnly_def
    by (subst list_ex_by_kind [of _ ts' has_fn], subst list_ex_by_kind [of _ ts has_fn])
       (simp only: assms)
  show "subSuites ts' = subSuites ts" by (simp add: subSuites_def assms)
  show "testCases ts' isOnly = testCases ts isOnly" by (simp only: testCases_of_tests assms)
qed

section \<open>What a call, a test and a plan leave behind\<close>

lemma console_fold_log_failure:
  "console (fold log_failure fs s) = console s @ concat (map failure_lines fs)"
  by (induction fs arbitrary: s) (simp_all add: log_failure_def log_def failure_lines_def)

lemma console_report:
  "console (report s totals) =
     console s @ [line_feed @ ''  '' @ show_nat (passed totals) @ '' passing'']
       @ (if failed totals > 0
          then (''  '' @ show_nat (failed totals) @ '' failing'') # concat (map failure_lines (failures s))
          else [])"
  by (simp add: report_def Let_def console_fold_log_failure log_def)

lemma invoke_frame:
  "invoke c f s = (x, s') \<Longrightarrow>
   failures s' = failures s \<and> failureIndex s' = failureIndex s \<and> console s' = console s"
  by (auto simp: invoke_def split: prod.splits)

lemma run_hooks_frame:
  "run_hooks sn k hooks s = (x, s') \<Longrightarrow>
   failures s' = failures s \<and> failureIndex s' = failureIndex s \<and> console s' = console s"
proof (induction hooks arbitrary: k s)
  case Nil
  then show ?case by simp
next
  case (Cons h hooks)
  obtain y s1 where h: "invoke (HookCall sn k) h s = (y, s1)" by (cases "invoke (HookCall sn k) h s")
  show ?case
  proof (cases y)
    case None
    with Cons.prems h have "run_hooks sn (k + 1) hooks s1 = (x, s')" by simp
    from Cons.IH [OF this] invoke_frame [OF h] show ?thesis by simp
  next
    case (Some e)
    with Cons.prems h have "s' = s1" by simp
    with invoke_frame [OF h] show ?thesis by simp
  qed
qed

lemma try_calls_frame:
  "try_calls sn hooks t s = (x, s') \<Longrightarrow>
   failures s' = failures s \<and> failureIndex s' = failureIndex s \<and> console s' = console s"
  by (auto simp: try_calls_def split: prod.splits option.splits
           dest!: run_hooks_frame invoke_frame)

lemma on_catch_Thrown:
  "on_catch pre ind nm (Thrown m) (s, r) =
     Inr (s\<lparr>console := console s @ [pre @ show_nat (failureIndex s) @ '') '' @ nm],
            failures := failures s @
              [\<lparr>index = failureIndex s, name = nm, message = message_or m ''undefined'', indent = ind,
                details = ''AssertionError [ERR_ASSERTION]: '' @ message_or m ''No message''\<rparr>],
            failureIndex := failureIndex s + 1\<rparr>,
          r\<lparr>failed := failed r + 1\<rparr>)"
  by (simp add: on_catch_def log_def Let_def)

lemma on_catch_Inr:
  assumes "on_catch pre ind nm err (s, r) = Inr (s', r')"
  shows "\<exists>m. err = Thrown m \<and>
           failures s' = failures s @
              [\<lparr>index = failureIndex s, name = nm, message = message_or m ''undefined'', indent = ind,
                details = ''AssertionError [ERR_ASSERTION]: '' @ message_or m ''No message''\<rparr>]"
proof (cases err)
  case Nullish
  with assms show ?thesis by (simp add: on_catch_def Let_def)
next
  case (Thrown m)
  with assms show ?thesis by (auto simp: on_catch_Thrown)
qed

lemma message_or_cases:
  "message_or m dflt = (case m of None \<Rightarrow> dflt | Some txt \<Rightarrow> if txt = [] then dflt else txt)"
  by (cases m) simp_all

lemma count_on_catch:
  "on_catch pre ind nm err (s, r) = Inr (s', r') \<Longrightarrow>
   passed r' = passed r \<and> failed r' = failed r + 1 \<and>
   length (failures s') = length (failures s) + 1 \<and> failureIndex s' = failureIndex s + 1"
  by (cases err) (auto simp: on_catch_def Let_def log_def)

lemma count_exec_step:
  "exec_step st (s, r) = Inr (s', r') \<Longrightarrow>
   passed r' + failed r' = passed r + failed r + (if is_run st then 1 else 0) \<and>
   length (failures s') + failed r = length (failures s) + failed r' \<and>
   failureIndex s' + failed r = failureIndex s + failed r'"
proof (cases st)
  case (Enter nm ind)
  assume "exec_step st (s, r) = Inr (s', r')"
  with Enter show ?thesis by (auto simp: log_def)
next
  case (InSuite sn hooks ind t)
  assume a: "exec_step st (s, r) = Inr (s', r')"
  obtain x s1 where tc: "try_calls sn hooks t s = (x, s1)" by (cases "try_calls sn hooks t s")
  note fr = try_calls_frame [OF tc]
  show ?thesis
  proof (cases x)
    case None
    with a InSuite tc fr show ?thesis by (auto simp: run_test_def on_pass_def log_def)
  next
    case (Some err)
    with a InSuite tc have "on_catch (repeat_indent (ind + 1)) (ind + 1) (node_name t) err (s1, r) = Inr (s', r')"
      by (simp add: run_test_def)
    from count_on_catch [OF this] fr InSuite show ?thesis by simp
  qed
next
  case (TopLevel t)
  assume a: "exec_step st (s, r) = Inr (s', r')"
  obtain x s1 where tc: "invoke (TestCall (node_name t)) (node_fn t) s = (x, s1)"
    by (cases "invoke (TestCall (node_name t)) (node_fn t) s")
  note fr = invoke_frame [OF tc]
  show ?thesis
  proof (cases x)
    case None
    with a TopLevel tc fr show ?thesis by (auto simp: run_top_test_def on_pass_def log_def)
  next
    case (Some err)
    with a TopLevel tc have "on_catch ''  '' 0 (node_name t) err (s1, r) = Inr (s', r')"
      by (simp add: run_top_test_def)
    from count_on_catch [OF this] fr TopLevel show ?thesis by simp
  qed
qed

lemma count_plan:
  "for_of exec_step p (s, r) = Inr (s', r') \<Longrightarrow>
   passed r' + failed r' = passed r + failed r + length (filter is_run p) \<and>
   length (failures s') + failed r = length (failures s) + failed r' \<and>
   failureIndex s' + failed r = failureIndex s + failed r'"
proof (induction p arbitrary: s r)
  case Nil
  then show ?case by simp
next
  case (Cons st p)
  from Cons.prems obtain s1 r1 where
    st: "exec_step st (s, r) = Inr (s1, r1)" and rest: "for_of exec_step p (s1, r1) = Inr (s', r')"
    by (auto split: sum.splits)
  from count_exec_step [OF st] Cons.IH [OF rest] show ?case by auto
qed

text \<open>Every step of a plan that returns has printed one line.\<close>

lemma console_exec_step:
  "exec_step st (s, r) = Inr (s', r') \<Longrightarrow> length (console s') = length (console s) + 1"
proof (cases st)
  case (Enter nm ind)
  assume "exec_step st (s, r) = Inr (s', r')"
  with Enter show ?thesis by (auto simp: log_def)
next
  case (InSuite sn hooks ind t)
  assume a: "exec_step st (s, r) = Inr (s', r')"
  obtain x s1 where tc: "try_calls sn hooks t s = (x, s1)" by (cases "try_calls sn hooks t s")
  note fr = try_calls_frame [OF tc]
  show ?thesis
  proof (cases x)
    case None
    with a InSuite tc fr show ?thesis by (auto simp: run_test_def on_pass_def log_def)
  next
    case (Some err)
    with a InSuite tc have "on_catch (repeat_indent (ind + 1)) (ind + 1) (node_name t) err (s1, r) = Inr (s', r')"
      by (simp add: run_test_def)
    with fr show ?thesis by (cases err) (auto simp: on_catch_def Let_def log_def)
  qed
next
  case (TopLevel t)
  assume a: "exec_step st (s, r) = Inr (s', r')"
  obtain x s1 where tc: "invoke (TestCall (node_name t)) (node_fn t) s = (x, s1)"
    by (cases "invoke (TestCall (node_name t)) (node_fn t) s")
  note fr = invoke_frame [OF tc]
  show ?thesis
  proof (cases x)
    case None
    with a TopLevel tc fr show ?thesis by (auto simp: run_top_test_def on_pass_def log_def)
  next
    case (Some err)
    with a TopLevel tc have "on_catch ''  '' 0 (node_name t) err (s1, r) = Inr (s', r')"
      by (simp add: run_top_test_def)
    with fr show ?thesis by (cases err) (auto simp: on_catch_def Let_def log_def)
  qed
qed

lemma console_plan:
  "for_of exec_step p (s, r) = Inr (s', r') \<Longrightarrow> length (console s') = length (console s) + length p"
proof (induction p arbitrary: s r)
  case Nil
  then show ?case by simp
next
  case (Cons st p)
  from Cons.prems obtain s1 r1 where
    st: "exec_step st (s, r) = Inr (s1, r1)" and rest: "for_of exec_step p (s1, r1) = Inr (s', r')"
    by (auto split: sum.splits)
  from console_exec_step [OF st] Cons.IH [OF rest] show ?case by simp
qed

subsection \<open>The calls into test code\<close>

lemma invoke_calls: "invoke c f s = (x, s') \<Longrightarrow> calls s' = calls s @ [c] \<and> f (world s) = (x, world s')"
  by (auto simp: invoke_def split: prod.splits)

lemma run_hooks_returned:
  "run_hooks sn k hooks s = (None, s1) \<Longrightarrow>
   calls s1 = calls s @ map (HookCall sn) [k..<k + length hooks] \<and>
   world s1 = fold (\<lambda>h w. snd (h w)) hooks (world s)"
proof (induction hooks arbitrary: k s)
  case Nil
  then show ?case by simp
next
  case (Cons h hooks)
  obtain y s2 where h: "invoke (HookCall sn k) h s = (y, s2)" by (cases "invoke (HookCall sn k) h s")
  with Cons.prems have y: "y = None" and rest: "run_hooks sn (k + 1) hooks s2 = (None, s1)"
    by (auto split: option.splits)
  from invoke_calls [OF h] Cons.IH [OF rest] y show ?case
    by (simp add: upt_conv_Cons del: upt_Suc)
qed

lemma run_hooks_raised:
  "run_hooks sn k hooks s = (Some err, s1) \<Longrightarrow>
   \<exists>j < length hooks. calls s1 = calls s @ map (HookCall sn) [k..<k + j + 1] \<and>
      (\<forall>later. run_hooks sn k (take (j + 1) hooks @ later) s = (Some err, s1))"
proof (induction hooks arbitrary: k s)
  case Nil
  then show ?case by simp
next
  case (Cons h hooks)
  obtain y s2 where h: "invoke (HookCall sn k) h s = (y, s2)" by (cases "invoke (HookCall sn k) h s")
  show ?case
  proof (cases y)
    case None
    with Cons.prems h have rest: "run_hooks sn (k + 1) hooks s2 = (Some err, s1)" by simp
    from Cons.IH [OF rest] obtain j where j: "j < length hooks"
      "calls s1 = calls s2 @ map (HookCall sn) [k + 1..<k + 1 + j + 1]"
      "\<And>later. run_hooks sn (k + 1) (take (j + 1) hooks @ later) s2 = (Some err, s1)" by blast
    have "[k..<k + Suc j + 1] = k # [k + 1..<k + 1 + j + 1]"
      using upt_shift [of k "Suc j"] by (simp del: upt_Suc)
    with j invoke_calls [OF h] h None have
      "Suc j < length (h # hooks) \<and>
       calls s1 = calls s @ map (HookCall sn) [k..<k + Suc j + 1] \<and>
       (\<forall>later. run_hooks sn k (take (Suc j + 1) (h # hooks) @ later) s = (Some err, s1))"
      by (simp del: upt_Suc)
    then show ?thesis by blast
  next
    case (Some e)
    with Cons.prems h have "e = err" "s2 = s1" by simp_all
    with invoke_calls [OF h] h Some have
      "0 < length (h # hooks) \<and>
       calls s1 = calls s @ map (HookCall sn) [k..<k + 0 + 1] \<and>
       (\<forall>later. run_hooks sn k (take (0 + 1) (h # hooks) @ later) s = (Some err, s1))"
      by simp
    then show ?thesis by blast
  qed
qed

lemma try_calls_calls:
  assumes "try_calls sn hooks t s = (x, s')"
  shows "calls s' = calls s @ map (HookCall sn) [0..<length hooks] @ [TestCall (node_name t)]
         \<or> (\<exists>j<length hooks. x \<noteq> None \<and> calls s' = calls s @ map (HookCall sn) [0..<j + 1])"
proof (cases "run_hooks sn 0 hooks s")
  case (Pair y s1)
  show ?thesis
  proof (cases y)
    case None
    with Pair assms have inv: "invoke (TestCall (node_name t)) (node_fn t) s1 = (x, s')"
      by (simp add: try_calls_def)
    from Pair None have "run_hooks sn 0 hooks s = (None, s1)" by simp
    from run_hooks_returned [OF this] invoke_calls [OF inv] show ?thesis by simp
  next
    case (Some err)
    with Pair assms have x: "x = Some err" "s' = s1" by (simp_all add: try_calls_def)
    from Pair Some have "run_hooks sn 0 hooks s = (Some err, s1)" by simp
    from run_hooks_raised [OF this] x show ?thesis by auto
  qed
qed

lemma run_hooks_calm:
  "list_all never_raises hooks \<Longrightarrow> \<exists>s1. run_hooks sn k hooks s = (None, s1)"
proof (induction hooks arbitrary: k s)
  case Nil
  then show ?case by simp
next
  case (Cons h hooks)
  then have "fst (h (world s)) = None" by (simp add: never_raises_def)
  then obtain w' where "h (world s) = (None, w')" by (cases "h (world s)") auto
  then have "invoke (HookCall sn k) h s = (None, s\<lparr>world := w', calls := calls s @ [HookCall sn k]\<rparr>)"
    by (simp add: invoke_def)
  with Cons show ?case by simp
qed

lemma exec_step_calls:
  assumes "list_all never_raises (step_hooks st)" "exec_step st (s, r) = Inr (s', r')"
  shows "calls s' = calls s @ step_calls st"
proof (cases st)
  case (Enter nm ind)
  with assms show ?thesis by (auto simp: log_def)
next
  case (InSuite sn hooks ind t)
  with assms(1) obtain s1 where rh: "run_hooks sn 0 hooks s = (None, s1)"
    using run_hooks_calm [of hooks sn 0 s] by auto
  obtain x s2 where inv: "invoke (TestCall (node_name t)) (node_fn t) s1 = (x, s2)"
    by (cases "invoke (TestCall (node_name t)) (node_fn t) s1")
  from run_hooks_returned [OF rh] invoke_calls [OF inv]
  have c2: "calls s2 = calls s @ step_calls st" by (simp add: InSuite)
  from assms(2) InSuite rh inv have "calls s' = calls s2"
    by (cases x; cases "the x")
       (auto simp: run_test_def try_calls_def on_pass_def on_catch_def log_def Let_def
             split: thrown.splits)
  with c2 show ?thesis by simp
next
  case (TopLevel t)
  obtain x s2 where inv: "invoke (TestCall (node_name t)) (node_fn t) s = (x, s2)"
    by (cases "invoke (TestCall (node_name t)) (node_fn t) s")
  from assms(2) TopLevel inv have "calls s' = calls s2"
    by (cases x; cases "the x")
       (auto simp: run_top_test_def on_pass_def on_catch_def log_def Let_def split: thrown.splits)
  with invoke_calls [OF inv] TopLevel show ?thesis by simp
qed

lemma plan_calls:
  "list_all (\<lambda>st. list_all never_raises (step_hooks st)) p \<Longrightarrow>
   for_of exec_step p (s, r) = Inr (s', r') \<Longrightarrow>
   calls s' = calls s @ concat (map step_calls p)"
proof (induction p arbitrary: s r)
  case Nil
  then show ?case by simp
next
  case (Cons st p)
  from Cons.prems(2) obtain s1 r1 where
    st: "exec_step st (s, r) = Inr (s1, r1)" and rest: "for_of exec_step p (s1, r1) = Inr (s', r')"
    by (auto split: sum.splits)
  from Cons.prems(1) have calm: "list_all never_raises (step_hooks st)"
    and calms: "list_all (\<lambda>st. list_all never_raises (step_hooks st)) p" by simp_all
  from exec_step_calls [OF calm st] Cons.IH [OF calms rest] show ?case by simp
qed

subsection \<open>Every record has the form of a record\<close>

lemma on_catch_records:
  "list_all recorded_form (failures s) \<Longrightarrow>
   list_all recorded_form (failures (last_state (on_catch pre ind nm err (s, r))))"
  by (cases err) (auto simp: on_catch_def Let_def log_def recorded_form_def)

lemma exec_step_records:
  assumes "list_all recorded_form (failures s)"
  shows "list_all recorded_form (failures (last_state (exec_step st (s, r))))"
proof (cases st)
  case (Enter nm ind)
  with assms show ?thesis by (simp add: log_def)
next
  case (InSuite sn hooks ind t)
  obtain x s1 where tc: "try_calls sn hooks t s = (x, s1)" by (cases "try_calls sn hooks t s")
  from try_calls_frame [OF tc] assms have s1: "list_all recorded_form (failures s1)" by simp
  show ?thesis
  proof (cases x)
    case None
    with tc InSuite s1 show ?thesis by (simp add: run_test_def on_pass_def log_def)
  next
    case (Some err)
    with tc InSuite on_catch_records [OF s1] show ?thesis by (simp add: run_test_def)
  qed
next
  case (TopLevel t)
  obtain x s1 where tc: "invoke (TestCall (node_name t)) (node_fn t) s = (x, s1)"
    by (cases "invoke (TestCall (node_name t)) (node_fn t) s")
  from invoke_frame [OF tc] assms have s1: "list_all recorded_form (failures s1)" by simp
  show ?thesis
  proof (cases x)
    case None
    with tc TopLevel s1 show ?thesis by (simp add: run_top_test_def on_pass_def log_def)
  next
    case (Some err)
    with tc TopLevel on_catch_records [OF s1] show ?thesis by (simp add: run_top_test_def)
  qed
qed

lemma plan_records:
  "list_all recorded_form (failures s) \<Longrightarrow>
   list_all recorded_form (failures (last_state (for_of exec_step p (s, r))))"
proof (induction p arbitrary: s r)
  case Nil
  then show ?case by simp
next
  case (Cons st p)
  show ?case
  proof (cases "exec_step st (s, r)")
    case (Inl e)
    with exec_step_records [OF Cons.prems, of st r] show ?thesis by simp
  next
    case (Inr sr)
    obtain s1 r1 where sr: "sr = (s1, r1)" by (cases sr)
    with Inr exec_step_records [OF Cons.prems, of st r] have "list_all recorded_form (failures s1)" by simp
    from Cons.IH [OF this] Inr sr show ?thesis by simp
  qed
qed

lemma run_records:
  "list_all recorded_form (failures (last_state (run_forest tests (fresh w))))"
  by (simp add: run_forest_plan plan_records fresh_def)

subsection \<open>Runs that end without a TypeError\<close>

text \<open>
  The only exception that leaves the runner is the TypeError of a \<^verbatim>\<open>catch\<close> block that
  reads \<^verbatim>\<open>err.message\<close> of a nullish \<^verbatim>\<open>err\<close>. A run whose test code never raises a
  nullish value is complete.
\<close>

lemma invoke_not_nullish:
  "never_nullish f \<Longrightarrow> invoke c f s = (Some err, s') \<Longrightarrow> err \<noteq> Nullish"
  by (auto simp: invoke_def never_nullish_def split: prod.splits) (metis fst_conv)

lemma run_hooks_not_nullish:
  "list_all never_nullish hooks \<Longrightarrow> run_hooks sn k hooks s = (Some err, s') \<Longrightarrow> err \<noteq> Nullish"
proof (induction hooks arbitrary: k s)
  case Nil
  then show ?case by simp
next
  case (Cons h hooks)
  obtain y s2 where h: "invoke (HookCall sn k) h s = (y, s2)" by (cases "invoke (HookCall sn k) h s")
  show ?case
  proof (cases y)
    case None
    with Cons h show ?thesis by simp
  next
    case (Some e)
    with Cons.prems h have "e = err" by simp
    with Cons.prems(1) h Some invoke_not_nullish [of h "HookCall sn k" s err s2] show ?thesis by simp
  qed
qed

lemma on_catch_completes: "err \<noteq> Nullish \<Longrightarrow> \<exists>s' r'. on_catch pre ind nm err (s, r) = Inr (s', r')"
  by (cases err) (simp_all add: on_catch_Thrown)

lemma exec_step_completes:
  assumes "list_all never_nullish (step_actions st)"
  shows "\<exists>s' r'. exec_step st (s, r) = Inr (s', r')"
proof (cases st)
  case (Enter nm ind)
  then show ?thesis by simp
next
  case (InSuite sn hooks ind t)
  with assms have hs: "list_all never_nullish hooks" and fn: "never_nullish (node_fn t)" by simp_all
  obtain x s1 where tc: "try_calls sn hooks t s = (x, s1)" by (cases "try_calls sn hooks t s")
  show ?thesis
  proof (cases x)
    case None
    with tc InSuite show ?thesis by (simp add: run_test_def on_pass_def)
  next
    case (Some err)
    have "err \<noteq> Nullish"
    proof (cases "run_hooks sn 0 hooks s")
      case (Pair y s0)
      show ?thesis
      proof (cases y)
        case None
        with Pair tc Some have "invoke (TestCall (node_name t)) (node_fn t) s0 = (Some err, s1)"
          by (simp add: try_calls_def)
        from invoke_not_nullish [OF fn this] show ?thesis .
      next
        case (Some e)
        with Pair tc \<open>x = Some err\<close> have "run_hooks sn 0 hooks s = (Some err, s1)"
          by (simp add: try_calls_def)
        from run_hooks_not_nullish [OF hs this] show ?thesis .
      qed
    qed
    from on_catch_completes [OF this] tc Some InSuite show ?thesis by (simp add: run_test_def)
  qed
next
  case (TopLevel t)
  with assms have fn: "never_nullish (node_fn t)" by simp
  obtain x s1 where tc: "invoke (TestCall (node_name t)) (node_fn t) s = (x, s1)"
    by (cases "invoke (TestCall (node_name t)) (node_fn t) s")
  show ?thesis
  proof (cases x)
    case None
    with tc TopLevel show ?thesis by (simp add: run_top_test_def on_pass_def)
  next
    case (Some err)
    with tc invoke_not_nullish [OF fn] have "err \<noteq> Nullish" by simp
    from on_catch_completes [OF this] tc Some TopLevel show ?thesis by (simp add: run_top_test_def)
  qed
qed

lemma plan_completes:
  "list_all (\<lambda>st. list_all never_nullish (step_actions st)) p \<Longrightarrow>
   \<exists>s' r'. for_of exec_step p (s, r) = Inr (s', r')"
proof (induction p arbitrary: s r)
  case Nil
  then show ?case by simp
next
  case (Cons st p)
  then have "list_all never_nullish (step_actions st)" by simp
  from exec_step_completes [OF this] obtain s1 r1 where "exec_step st (s, r) = Inr (s1, r1)" by blast
  with Cons show ?case by simp
qed

lemma run_completes:
  "list_all (\<lambda>st. list_all never_nullish (step_actions st)) (plan_forest tests) \<Longrightarrow>
   \<exists>s' totals. run_forest tests s = Inr (s', totals)"
  by (simp add: run_forest_plan plan_completes)

subsection \<open>A hook that raises a value with properties\<close>

text \<open>
  When a hook raises a value that is not nullish, the test body is not called (the result
  of the \<^verbatim>\<open>try\<close> block does not depend on it), the hooks after the raising one are not
  called (any list of later hooks gives the same result), and the test is recorded as
  failed once, under its own name, with the message of the raised value.
\<close>

lemma hook_failure_recorded:
  assumes "run_hooks sn 0 hooks s = (Some (Thrown m), s1)"
  shows "try_calls sn hooks t s = (Some (Thrown m), s1)"
    and "run_test sn hooks ind t (s, r) =
           Inr (s1\<lparr>console := console s @ [repeat_indent (ind + 1) @ show_nat (failureIndex s) @ '') '' @ node_name t],
                  failures := failures s @
                    [\<lparr>index = failureIndex s, name = node_name t, message = message_or m ''undefined'',
                      indent = ind + 1,
                      details = ''AssertionError [ERR_ASSERTION]: '' @ message_or m ''No message''\<rparr>],
                  failureIndex := failureIndex s + 1\<rparr>,
                r\<lparr>failed := failed r + 1\<rparr>)"
    and "\<exists>j<length hooks. calls s1 = calls s @ map (HookCall sn) [0..<j + 1] \<and>
           (\<forall>later. run_hooks sn 0 (take (j + 1) hooks @ later) s = (Some (Thrown m), s1))"
proof -
  show tc: "try_calls sn hooks t s = (Some (Thrown m), s1)"
    using assms by (simp add: try_calls_def)
  from run_hooks_frame [OF assms] tc
  show "run_test sn hooks ind t (s, r) =
           Inr (s1\<lparr>console := console s @ [repeat_indent (ind + 1) @ show_nat (failureIndex s) @ '') '' @ node_name t],
                  failures := failures s @
                    [\<lparr>index = failureIndex s, name = node_name t, message = message_or m ''undefined'',
                      indent = ind + 1,
                      details = ''AssertionError [ERR_ASSERTION]: '' @ message_or m ''No message''\<rparr>],
                  failureIndex := failureIndex s + 1\<rparr>,
                r\<lparr>failed := failed r + 1\<rparr>)"
    by (simp add: run_test_def on_catch_Thrown)
  show "\<exists>j<length hooks. calls s1 = calls s @ map (HookCall sn) [0..<j + 1] \<and>
           (\<forall>later. run_hooks sn 0 (take (j + 1) hooks @ later) s = (Some (Thrown m), s1))"
    using run_hooks_raised [OF assms] by simp
qed

section \<open>The claims\<close>

subsection \<open>C1: exclusive nodes below the second level\<close>

text \<open>
  Claim C1 says that exclusive mode for the whole run is on as soon as any node at any
  depth is exclusive, and that with an exclusive Case at depth three the top-level Cases
  that are not exclusive do not run. \<^verbatim>\<open>runTests\<close> computes its flag from the top-level
  nodes and their children only. For \<^verbatim>\<open>deep_only_forest\<close> the flag is off, and the
  top-level test \<^verbatim>\<open>a\<close> runs and is counted although \<^verbatim>\<open>x\<close> is exclusive.
\<close>

theorem deep_only_not_seen:
  "hasOnly deep_only_forest = False \<and>
   run_forest deep_only_forest (fresh ()) =
     Inr (\<lparr>world = (), failureIndex = 1, failures = [],
           console = [check_mark @ '' a'', ''  G'', ''    H'', ''      '' @ check_mark @ '' x''],
           calls = [TestCall ''a'', TestCall ''x'']\<rparr>,
          \<lparr>passed = 2, failed = 0\<rparr>)"
  by code_simp

subsection \<open>C2: when a suite is in exclusive mode\<close>

text \<open>
  Claim C2 as stated says that exclusive mode is active for a Group exactly when the
  Group is marked, the mode is inherited, or a direct child is marked. The suite with
  children \<^verbatim>\<open>lookahead_children\<close> is not marked, is entered with \<^verbatim>\<open>only = false\<close> and has
  no marked child, and yet its exclusive mode is on: its test \<^verbatim>\<open>a\<close> is left out and only
  \<^verbatim>\<open>x\<close>, one level further down, runs.
\<close>

theorem lookahead_counterexample:
  "\<not> list_ex node_only lookahead_children \<and>
   hasOnly lookahead_children \<and>
   runSuite (Suite ''G'' lookahead_children [] False) 1 False (fresh ()) =
     Inr (\<lparr>world = (), failureIndex = 1, failures = [],
           console = [''  G'', ''    H'', ''      '' @ check_mark @ '' x''],
           calls = [TestCall ''x'']\<rparr>,
          \<lparr>passed = 1, failed = 0\<rparr>)"
  by code_simp

text \<open>
  Claim C2, amended. For every Group being traversed, exclusive mode is active if and only
  if the invocation inherited it from its caller, or some direct child (Case or Group) is
  marked exclusive, or some child of a direct child Group is marked exclusive. The mark of
  the Group itself is not read by its own invocation; it is read by the caller, whose
  check then succeeds, so a marked Group always inherits the mode. When the mode is
  active, the Case children that run are exactly those marked exclusive, the others being
  neither executed, nor counted, nor reported.

  Below, \<^verbatim>\<open>active\<close> is this rule, \<^verbatim>\<open>taken\<close> the Cases it lets run (the marked ones when
  it holds, all of them when it does not) and \<^verbatim>\<open>below\<close> the plans of the nested Groups,
  which are entered with \<^verbatim>\<open>active\<close> as their inherited mode. The run of the Group is
  nothing, when the Group is suppressed, and otherwise one pass over its name, the Cases
  \<^verbatim>\<open>taken\<close> in registration order, and \<^verbatim>\<open>below\<close>; the expression \<^verbatim>\<open>isOnly\<close> of the source
  has the value of the rule; the run does not depend on the mark of the Group; a marked
  child makes the look-ahead of its parent succeed; and a Group with a Case in
  \<^verbatim>\<open>taken\<close> is not suppressed. A run that returns has counted one result and printed one
  line for each Case in \<^verbatim>\<open>taken\<close> and each step of \<^verbatim>\<open>below\<close>, besides the line of the
  name, has recorded as many failures as it counted, and, when no hook raises, has called
  the hooks and the body of each Case in \<^verbatim>\<open>taken\<close> and nothing else of the Group's own.
  Last, when the mode is active the run is the run of the Group without its unmarked
  Cases.
\<close>

theorem exclusive_mode_rule:
  fixes ts :: "'w node list" and only :: bool and ind :: nat
  defines "active \<equiv> only \<or> (\<exists>t\<in>set ts. node_only t) \<or>
                     (\<exists>t\<in>set ts. \<exists>u\<in>set (children_of t). node_only u)"
  defines "taken \<equiv> if active then filter (\<lambda>t. has_fn t \<and> node_only t) ts else filter has_fn ts"
  defines "below \<equiv> concat (map (\<lambda>sub. plan_suite sub (ind + 1) active) (filter (\<lambda>t. \<not> has_fn t) ts))"
  shows "runSuite (Suite nm ts hooks b) ind only s =
           (if \<not> hasRunnableTests ts only active then Inr (s, no_result)
            else for_of exec_step (Enter nm ind # map (InSuite nm hooks ind) taken @ below) (s, no_result))
       \<and> ((hasOnly ts \<or> only) \<longleftrightarrow> active)
       \<and> runSuite (Suite nm ts hooks b') ind only s = runSuite (Suite nm ts hooks b) ind only s
       \<and> (\<forall>t\<in>set ts. node_only t \<longrightarrow> hasOnly ts)
       \<and> (taken \<noteq> [] \<longrightarrow>
            runSuite (Suite nm ts hooks b) ind only s =
              for_of exec_step (Enter nm ind # map (InSuite nm hooks ind) taken @ below) (s, no_result))
       \<and> (hasRunnableTests ts only active \<and> runSuite (Suite nm ts hooks b) ind only s = Inr (s', r') \<longrightarrow>
            passed r' + failed r' = length taken + length (filter is_run below) \<and>
            length (failures s') = length (failures s) + failed r' \<and>
            length (console s') = length (console s) + 1 + length taken + length below \<and>
            (list_all never_raises hooks \<and> list_all (\<lambda>st. list_all never_raises (step_hooks st)) below \<longrightarrow>
               calls s' = calls s
                 @ concat (map (\<lambda>t. map (HookCall nm) [0..<length hooks] @ [TestCall (node_name t)]) taken)
                 @ concat (map step_calls below)))
       \<and> (active \<longrightarrow>
            runSuite (Suite nm ts hooks b) ind only s =
              runSuite (Suite nm (filter (\<lambda>t. \<not> has_fn t \<or> node_only t) ts) hooks b) ind only s)"
proof -
  let ?plan = "Enter nm ind # map (InSuite nm hooks ind) taken @ below"
  have act: "(hasOnly ts \<or> only) = active"
    unfolding active_def hasOnly_children by blast
  have tc: "testCases ts active = taken"
    unfolding testCases_def taken_def by (cases active) (auto intro: filter_cong)
  have plan: "plan_suite (Suite nm ts hooks b) ind only =
                (if \<not> hasRunnableTests ts only active then [] else ?plan)"
    by (simp add: act Let_def tc subSuites_def below_def)
  have run: "runSuite (Suite nm ts hooks b) ind only s =
               for_of exec_step (plan_suite (Suite nm ts hooks b) ind only) (s, no_result)"
    using runSuite_plan [of "Suite nm ts hooks b" ind only s] by (simp del: plan_suite.simps runSuite.simps)
  have one: "runSuite (Suite nm ts hooks b) ind only s =
           (if \<not> hasRunnableTests ts only active then Inr (s, no_result)
            else for_of exec_step ?plan (s, no_result))"
    unfolding run plan by simp
  have mark: "runSuite (Suite nm ts hooks b') ind only s = runSuite (Suite nm ts hooks b) ind only s"
    by simp
  have caller: "\<forall>t\<in>set ts. node_only t \<longrightarrow> hasOnly ts"
    unfolding hasOnly_children by blast
  have shown: "hasRunnableTests ts only active" if "taken \<noteq> []"
    using that by (simp add: hasRunnableTests_def tc)
  have two: "runSuite (Suite nm ts hooks b) ind only s = for_of exec_step ?plan (s, no_result)"
    if "taken \<noteq> []"
    using shown [OF that] one by simp
  have three: "passed r' + failed r' = length taken + length (filter is_run below) \<and>
            length (failures s') = length (failures s) + failed r' \<and>
            length (console s') = length (console s) + 1 + length taken + length below \<and>
            (list_all never_raises hooks \<and> list_all (\<lambda>st. list_all never_raises (step_hooks st)) below \<longrightarrow>
               calls s' = calls s
                 @ concat (map (\<lambda>t. map (HookCall nm) [0..<length hooks] @ [TestCall (node_name t)]) taken)
                 @ concat (map step_calls below))"
    if "hasRunnableTests ts only active \<and> runSuite (Suite nm ts hooks b) ind only s = Inr (s', r')"
  proof -
    from that one have p: "for_of exec_step ?plan (s, no_result) = Inr (s', r')" by simp
    from count_plan [OF p]
    have a: "passed r' + failed r' = length taken + length (filter is_run below)"
      and b: "length (failures s') = length (failures s) + failed r'"
      by (simp_all add: no_result_def comp_def)
    from console_plan [OF p]
    have c: "length (console s') = length (console s) + 1 + length taken + length below" by simp
    have d: "calls s' = calls s
                 @ concat (map (\<lambda>t. map (HookCall nm) [0..<length hooks] @ [TestCall (node_name t)]) taken)
                 @ concat (map step_calls below)"
      if calm: "list_all never_raises hooks \<and> list_all (\<lambda>st. list_all never_raises (step_hooks st)) below"
    proof -
      from calm have "list_all (\<lambda>st. list_all never_raises (step_hooks st)) ?plan"
        by (auto simp: list_all_iff)
      from plan_calls [OF this p] show ?thesis by (simp add: comp_def)
    qed
    from a b c d show ?thesis by blast
  qed
  have four: "runSuite (Suite nm ts hooks b) ind only s =
              runSuite (Suite nm (filter (\<lambda>t. \<not> has_fn t \<or> node_only t) ts) hooks b) ind only s"
    if active
  proof -
    from that act have eq: "(hasOnly ts \<or> only) = True" by simp
    show ?thesis
      by (rule runSuite_depends [symmetric]) (simp_all only: eq filter_exclusive_same)
  qed
  from act have act': "(hasOnly ts \<or> only) \<longleftrightarrow> active" by simp
  from one act' mark caller two three four show ?thesis by blast
qed

theorem exclusive_mode_rule_witness:
  "hasRunnableTests exclusive_children False True
   \<and> filter (\<lambda>t. has_fn t \<and> node_only t) exclusive_children = [Test ''b'' passes True]
   \<and> runSuite (Suite ''G'' exclusive_children [] False) 1 False (fresh ()) =
     Inr (\<lparr>world = (), failureIndex = 1, failures = [],
           console = [''  G'', ''    '' @ check_mark @ '' b''],
           calls = [TestCall ''b'']\<rparr>,
          \<lparr>passed = 1, failed = 0\<rparr>)
   \<and> runSuite (Suite ''G'' exclusive_children [] False) 1 False (fresh ()) =
     runSuite (Suite ''G'' [Test ''b'' passes True, Suite ''H'' [Test ''x'' passes False] [] False] [] False)
       1 False (fresh ())
   \<and> filter has_fn plain_children = [Test ''a'' passes False]
   \<and> runSuite (Suite ''G'' plain_children [] False) 1 False (fresh ()) =
     Inr (\<lparr>world = (), failureIndex = 1, failures = [],
           console = [''  G'', ''    '' @ check_mark @ '' a'', ''    H'', ''      '' @ check_mark @ '' x''],
           calls = [TestCall ''a'', TestCall ''x'']\<rparr>,
          \<lparr>passed = 2, failed = 0\<rparr>)"
proof -
  let ?active = "False \<or> (\<exists>t\<in>set exclusive_children. node_only t) \<or>
                 (\<exists>t\<in>set exclusive_children. \<exists>u\<in>set (children_of t). node_only u)"
  let ?taken = "if ?active then filter (\<lambda>t. has_fn t \<and> node_only t) exclusive_children
                else filter has_fn exclusive_children"
  let ?below = "concat (map (\<lambda>sub. plan_suite sub (1 + 1) ?active)
                            (filter (\<lambda>t. \<not> has_fn t) exclusive_children))"
  let ?end = "\<lparr>world = (), failureIndex = 1, failures = [],
           console = [''  G'', ''    '' @ check_mark @ '' b''],
           calls = [TestCall ''b'']\<rparr>"
  note rule = exclusive_mode_rule [where ts = exclusive_children and only = False and nm = "''G''"
      and hooks = "[]" and b = False and ind = 1 and s = "fresh ()"
      and s' = ?end and r' = "\<lparr>passed = 1, failed = 0\<rparr>"]
  note plain = exclusive_mode_rule [where ts = plain_children and only = False and nm = "''G''"
      and hooks = "[]" and b = False and ind = 1 and s = "fresh ()"]
  have on: ?active by (simp add: exclusive_children_def)
  have marked: "filter (\<lambda>t. has_fn t \<and> node_only t) exclusive_children = [Test ''b'' passes True]"
    by (simp add: exclusive_children_def)
  have taken: "?taken \<noteq> []" by (simp add: exclusive_children_def)
  have shown: "hasRunnableTests exclusive_children False ?active"
    by (simp add: on hasRunnableTests_def testCases_def exclusive_children_def)
  have shown': "hasRunnableTests exclusive_children False True"
    by (simp add: hasRunnableTests_def testCases_def exclusive_children_def)
  have calm: "list_all never_raises ([] :: unit action list) \<and>
              list_all (\<lambda>st. list_all never_raises (step_hooks st)) ?below"
    by (simp add: exclusive_children_def hasOnly_def hasRunnableTests_def testCases_def subSuites_def)
  have run: "runSuite (Suite ''G'' exclusive_children [] False) 1 False (fresh ()) =
     Inr (?end, \<lparr>passed = 1, failed = 0\<rparr>)"
    by (rule trans [OF rule [THEN conjunct2, THEN conjunct2, THEN conjunct2, THEN conjunct2,
                             THEN conjunct1, THEN mp, OF taken]]) code_simp
  note left = rule [THEN conjunct2, THEN conjunct2, THEN conjunct2, THEN conjunct2, THEN conjunct2,
                    THEN conjunct1, THEN mp, OF conjI, OF shown run]
  have called: "calls ?end = calls (fresh ())
          @ concat (map (\<lambda>t. map (HookCall ''G'') [0..<length ([] :: unit action list)] @ [TestCall (node_name t)]) ?taken)
          @ concat (map step_calls ?below)"
    by (rule left [THEN conjunct2, THEN conjunct2, THEN conjunct2, THEN mp, OF calm])
  have f: "filter (\<lambda>t. \<not> has_fn t \<or> node_only t) exclusive_children =
           [Test ''b'' passes True, Suite ''H'' [Test ''x'' passes False] [] False]"
    by (simp add: exclusive_children_def)
  have "runSuite (Suite ''G'' exclusive_children [] False) 1 False (fresh ()) =
        runSuite (Suite ''G'' (filter (\<lambda>t. \<not> has_fn t \<or> node_only t) exclusive_children) [] False)
          1 False (fresh ())"
    by (rule rule [THEN conjunct2, THEN conjunct2, THEN conjunct2, THEN conjunct2, THEN conjunct2,
                   THEN conjunct2, THEN mp, OF on])
  then have same: "runSuite (Suite ''G'' exclusive_children [] False) 1 False (fresh ()) =
     runSuite (Suite ''G'' [Test ''b'' passes True, Suite ''H'' [Test ''x'' passes False] [] False] [] False)
       1 False (fresh ())"
    by (simp only: f)
  have all_cases: "filter has_fn plain_children = [Test ''a'' passes False]"
    by (simp add: plain_children_def)
  have run': "runSuite (Suite ''G'' plain_children [] False) 1 False (fresh ()) =
     Inr (\<lparr>world = (), failureIndex = 1, failures = [],
           console = [''  G'', ''    '' @ check_mark @ '' a'', ''    H'', ''      '' @ check_mark @ '' x''],
           calls = [TestCall ''a'', TestCall ''x'']\<rparr>,
          \<lparr>passed = 2, failed = 0\<rparr>)"
    by (rule trans [OF plain [THEN conjunct1]]) code_simp
  from shown' marked run same all_cases run' called show ?thesis by (intro conjI)
qed

subsection \<open>C3: suites without runnable content\<close>

text \<open>
  Claim C3 says that a Group without runnable content anywhere in its subtree prints
  nothing and returns zero counts, that a Group with runnable content somewhere in its
  subtree prints its name, and that both hold at any depth. \<^verbatim>\<open>hasRunnableTests\<close> looks
  at the children of the sub-suites and no further. The suite \<^verbatim>\<open>empty_nest\<close> has no
  runnable content and prints its name. The suite \<^verbatim>\<open>buried\<close>, entered in exclusive mode,
  has the exclusive test \<^verbatim>\<open>x\<close> three levels down and prints nothing; in the forest with
  the exclusive top-level test \<^verbatim>\<open>y\<close> before it, \<^verbatim>\<open>x\<close> is never run.
\<close>

theorem shallow_runnable_check:
  "spec_runnable_content empty_nest False = False \<and>
   runSuite empty_nest 1 False (fresh ()) =
     Inr (\<lparr>world = (), failureIndex = 1, failures = [], console = [''  G''], calls = []\<rparr>,
          \<lparr>passed = 0, failed = 0\<rparr>) \<and>
   spec_runnable_content buried True = True \<and>
   runSuite buried 1 True (fresh ()) =
     Inr (\<lparr>world = (), failureIndex = 1, failures = [], console = [], calls = []\<rparr>,
          \<lparr>passed = 0, failed = 0\<rparr>) \<and>
   run_forest [Test ''y'' passes True, buried] (fresh ()) =
     Inr (\<lparr>world = (), failureIndex = 1, failures = [], console = [check_mark @ '' y''],
           calls = [TestCall ''y'']\<rparr>,
          \<lparr>passed = 1, failed = 0\<rparr>)"
  by code_simp

subsection \<open>C4: the totals count the runnable tests\<close>

text \<open>
  Claim C4. For every registered forest, after a complete run the reported totals satisfy
  totalPassed + totalFailed = the number of runnable Cases as the filter determines them:
  each runnable Case adds one to exactly one of the two counters, a skipped Case adds to
  neither. The runnable Cases are the test steps of the plan, which is computed from the
  tree by the filter expressions of the source alone. A run is complete when no
  TypeError leaves the runner. Each failed Case has also left exactly one entry in
  \<^verbatim>\<open>failures\<close> and advanced \<^verbatim>\<open>failureIndex\<close> by one, and the totals are the numbers
  printed in the summary.
\<close>

theorem totals_count_runnable:
  assumes "run_forest tests s = Inr (s', totals)"
  shows "passed totals + failed totals = length (runnable tests) \<and>
         length (failures s') = length (failures s) + failed totals \<and>
         failureIndex s' = failureIndex s + failed totals \<and>
         runTests tests s = Inr (report s' totals) \<and>
         console (report s' totals) =
           console s' @ [line_feed @ ''  '' @ show_nat (passed totals) @ '' passing'']
             @ (if failed totals > 0
                then (''  '' @ show_nat (failed totals) @ '' failing'') # concat (map failure_lines (failures s'))
                else [])"
proof -
  from assms have "for_of exec_step (plan_forest tests) (s, no_result) = Inr (s', totals)"
    by (simp add: run_forest_plan)
  from count_plan [OF this] assms show ?thesis
    by (simp add: runnable_def no_result_def runTests_def console_report)
qed

theorem totals_count_runnable_witness:
  "run_forest mixed_forest (fresh ()) =
     Inr (\<lparr>world = (), failureIndex = 2,
           failures = [\<lparr>index = 1, name = ''b'', message = ''no'', indent = 0,
                        details = ''AssertionError [ERR_ASSERTION]: no''\<rparr>],
           console = [''  1) b'', ''  G'', ''    '' @ check_mark @ '' c''],
           calls = [TestCall ''b'', TestCall ''c'']\<rparr>,
          \<lparr>passed = 1, failed = 1\<rparr>)
   \<and> length (runnable mixed_forest) = 2"
proof -
  have run: "run_forest mixed_forest (fresh ()) =
     Inr (\<lparr>world = (), failureIndex = 2,
           failures = [\<lparr>index = 1, name = ''b'', message = ''no'', indent = 0,
                        details = ''AssertionError [ERR_ASSERTION]: no''\<rparr>],
           console = [''  1) b'', ''  G'', ''    '' @ check_mark @ '' c''],
           calls = [TestCall ''b'', TestCall ''c'']\<rparr>,
          \<lparr>passed = 1, failed = 1\<rparr>)"
    by code_simp
  from totals_count_runnable [OF run] have "length (runnable mixed_forest) = 2" by simp
  with run show ?thesis by simp
qed

subsection \<open>C5: tests before suites\<close>

text \<open>
  Claim C5. For every Group and for the root forest, all directly registered Cases are
  executed before any directly registered nested Group, however the two kinds were
  interleaved at registration; within the Cases and within the Groups the registration
  order is the execution order; and each nested Group is executed by the same rule.
  A run of a suite is one sequential pass over a list: its name, then its runnable tests
  in list order, then the plans of its sub-suites in list order, each built by the same
  rule. A run of the forest is one pass over its runnable top-level tests followed by the
  plans of its suites. Two registrations with the same tests in the same order and the
  same suites in the same order give the same run.
\<close>

theorem cases_before_groups:
  "runSuite (Suite nm ts hooks b) ind only s =
     (if \<not> hasRunnableTests ts only (hasOnly ts \<or> only) then Inr (s, no_result)
      else for_of exec_step
             (Enter nm ind
                # map (InSuite nm hooks ind)
                      (filter (\<lambda>t. has_fn t \<and> (hasOnly ts \<or> only \<longrightarrow> node_only t)) ts)
                @ concat (map (\<lambda>sub. plan_suite sub (ind + 1) (hasOnly ts \<or> only))
                              (filter (\<lambda>t. \<not> has_fn t) ts)))
             (s, no_result))
   \<and> run_forest tests s =
       for_of exec_step
         (map TopLevel (filter (\<lambda>t. has_fn t \<and> (hasOnly tests \<longrightarrow> node_only t)) tests)
            @ concat (map (\<lambda>suite. plan_suite suite 1 (hasOnly tests)) (filter (\<lambda>t. \<not> has_fn t) tests)))
         (s, no_result)
   \<and> (filter has_fn ts' = filter has_fn ts \<and>
      filter (\<lambda>t. \<not> has_fn t) ts' = filter (\<lambda>t. \<not> has_fn t) ts \<longrightarrow>
        runSuite (Suite nm ts' hooks b) ind only s = runSuite (Suite nm ts hooks b) ind only s \<and>
        run_forest ts' s = run_forest ts s)"
proof (intro conjI impI)
  have tc: "testCases ts (hasOnly ts \<or> only) =
            filter (\<lambda>t. has_fn t \<and> (hasOnly ts \<or> only \<longrightarrow> node_only t)) ts"
    unfolding testCases_def by (rule filter_cong) auto
  show "runSuite (Suite nm ts hooks b) ind only s =
     (if \<not> hasRunnableTests ts only (hasOnly ts \<or> only) then Inr (s, no_result)
      else for_of exec_step
             (Enter nm ind
                # map (InSuite nm hooks ind)
                      (filter (\<lambda>t. has_fn t \<and> (hasOnly ts \<or> only \<longrightarrow> node_only t)) ts)
                @ concat (map (\<lambda>sub. plan_suite sub (ind + 1) (hasOnly ts \<or> only))
                              (filter (\<lambda>t. \<not> has_fn t) ts)))
             (s, no_result))"
    unfolding runSuite_plan [of "Suite nm ts hooks b"] tc [symmetric]
    by (simp add: Let_def subSuites_def)
  have top: "filter (\<lambda>t. \<not> (hasOnly tests \<and> \<not> node_only t)) (filter has_fn tests) =
             filter (\<lambda>t. has_fn t \<and> (hasOnly tests \<longrightarrow> node_only t)) tests"
    unfolding filter_filter by (rule filter_cong) auto
  show "run_forest tests s =
       for_of exec_step
         (map TopLevel (filter (\<lambda>t. has_fn t \<and> (hasOnly tests \<longrightarrow> node_only t)) tests)
            @ concat (map (\<lambda>suite. plan_suite suite 1 (hasOnly tests)) (filter (\<lambda>t. \<not> has_fn t) tests)))
         (s, no_result)"
    unfolding run_forest_plan plan_forest_def Let_def top by (rule refl)
next
  assume same: "filter has_fn ts' = filter has_fn ts \<and>
      filter (\<lambda>t. \<not> has_fn t) ts' = filter (\<lambda>t. \<not> has_fn t) ts"
  then have a: "filter has_fn ts' = filter has_fn ts"
    and b: "filter (\<lambda>t. \<not> has_fn t) ts' = filter (\<lambda>t. \<not> has_fn t) ts" by simp_all
  show "runSuite (Suite nm ts' hooks b) ind only s = runSuite (Suite nm ts hooks b) ind only s"
    by (rule runSuite_depends) (rule same_batches [OF a b])+
  show "run_forest ts' s = run_forest ts s"
    unfolding run_forest_def same_batches(1) [OF a b] a b by (rule refl)
qed

theorem cases_before_groups_witness:
  "run_forest interleaved (fresh []) =
     Inr (\<lparr>world = [''A'', ''C'', ''B1''], failureIndex = 1, failures = [],
           console = [check_mark @ '' A'', check_mark @ '' C'', ''  B'', ''    '' @ check_mark @ '' B1''],
           calls = [TestCall ''A'', TestCall ''C'', TestCall ''B1'']\<rparr>,
          \<lparr>passed = 3, failed = 0\<rparr>)
   \<and> run_forest cases_first (fresh []) = run_forest interleaved (fresh [])"
proof -
  have run: "run_forest interleaved (fresh []) =
     Inr (\<lparr>world = [''A'', ''C'', ''B1''], failureIndex = 1, failures = [],
           console = [check_mark @ '' A'', check_mark @ '' C'', ''  B'', ''    '' @ check_mark @ '' B1''],
           calls = [TestCall ''A'', TestCall ''C'', TestCall ''B1'']\<rparr>,
          \<lparr>passed = 3, failed = 0\<rparr>)"
    by code_simp
  have same: "filter has_fn cases_first = filter has_fn interleaved \<and>
      filter (\<lambda>t. \<not> has_fn t) cases_first = filter (\<lambda>t. \<not> has_fn t) interleaved"
    by (simp add: cases_first_def interleaved_def)
  from cases_before_groups [of _ interleaved _ _ _ _ "fresh []" _ cases_first] same
  have "run_forest cases_first (fresh []) = run_forest interleaved (fresh [])" by blast
  with run show ?thesis by simp
qed

subsection \<open>C6: a hook that fails\<close>

text \<open>
  Claim C6 says that when a hook of a runnable Case raises, no later hook runs, the action
  is not invoked, the Case is counted as failed and exactly one Failure Record is
  produced. For a hook that rejects with \<^verbatim>\<open>undefined\<close> the first two hold and the last two
  do not: the line of the failure is printed, then the \<^verbatim>\<open>catch\<close> block itself raises a
  TypeError, which ends \<^verbatim>\<open>runSuite\<close> and \<^verbatim>\<open>runTests\<close>: nothing is recorded or counted,
  the test \<^verbatim>\<open>d\<close> is not run and no summary is printed.
\<close>

theorem nullish_hook_failure:
  "runSuite nullish_hook_suite 1 False (fresh ()) =
     Inl \<lparr>world = (), failureIndex = 1, failures = [],
          console = [''  G'', ''    1) c''], calls = [HookCall ''G'' 0]\<rparr>
   \<and> runTests [nullish_hook_suite] (fresh ()) =
     Inl \<lparr>world = (), failureIndex = 1, failures = [],
          console = [''  G'', ''    1) c''], calls = [HookCall ''G'' 0]\<rparr>"
  by code_simp

subsection \<open>C7: hooks before each test of their suite\<close>

text \<open>
  Claim C7. For every Group, its setup hooks run before the action of each of its direct
  runnable Case children, once per Case and in registration order, and they are never run
  for Cases of nested Groups. First, for one Case: when all hooks return, they have been
  called in list order, each on the world the one before it left, and the body is called
  next, on the world the last hook left. Second, whatever the hooks do, the calls made for
  one Case are either every hook once, in list order, and then the body, or the hooks up
  to one that raised and no body. Third, for a complete run of a suite none of whose hooks
  raises: the calls made are, for each runnable test of the suite in turn, the hooks of
  the suite in order and then the body, followed by the calls of the sub-suites, which are
  made with the hooks of the sub-suites. Fourth, a suite without a runnable test of its
  own runs the same whatever its hooks are.
\<close>

theorem hooks_before_each_case:
  "(run_hooks sn 0 hooks s = (None, s1) \<longrightarrow>
      calls s1 = calls s @ map (HookCall sn) [0..<length hooks] \<and>
      world s1 = fold (\<lambda>h w. snd (h w)) hooks (world s) \<and>
      try_calls sn hooks t s = invoke (TestCall (node_name t)) (node_fn t) s1)
   \<and> (try_calls sn hooks t s = (x, s2) \<longrightarrow>
      calls s2 = calls s @ map (HookCall sn) [0..<length hooks] @ [TestCall (node_name t)] \<or>
      (\<exists>j<length hooks. x \<noteq> None \<and> calls s2 = calls s @ map (HookCall sn) [0..<j + 1]))
   \<and> (list_all (\<lambda>st. list_all never_raises (step_hooks st)) (plan_suite (Suite sn ts hooks b) ind only) \<and>
      hasRunnableTests ts only (hasOnly ts \<or> only) \<and>
      runSuite (Suite sn ts hooks b) ind only s = Inr (s', r') \<longrightarrow>
      calls s' = calls s
        @ concat (map (\<lambda>t. map (HookCall sn) [0..<length hooks] @ [TestCall (node_name t)])
                      (testCases ts (hasOnly ts \<or> only)))
        @ concat (map (\<lambda>sub. concat (map step_calls (plan_suite sub (ind + 1) (hasOnly ts \<or> only))))
                      (subSuites ts)))
   \<and> (testCases ts (hasOnly ts \<or> only) = [] \<longrightarrow>
      runSuite (Suite sn ts hooks b) ind only s = runSuite (Suite sn ts hooks' b) ind only s)"
proof (intro conjI impI)
  assume rh: "run_hooks sn 0 hooks s = (None, s1)"
  from run_hooks_returned [OF rh]
  show "calls s1 = calls s @ map (HookCall sn) [0..<length hooks]"
    and "world s1 = fold (\<lambda>h w. snd (h w)) hooks (world s)" by simp_all
  from rh show "try_calls sn hooks t s = invoke (TestCall (node_name t)) (node_fn t) s1"
    by (simp add: try_calls_def)
next
  assume "try_calls sn hooks t s = (x, s2)"
  from try_calls_calls [OF this]
  show "calls s2 = calls s @ map (HookCall sn) [0..<length hooks] @ [TestCall (node_name t)] \<or>
      (\<exists>j<length hooks. x \<noteq> None \<and> calls s2 = calls s @ map (HookCall sn) [0..<j + 1])" .
next
  assume a: "list_all (\<lambda>st. list_all never_raises (step_hooks st)) (plan_suite (Suite sn ts hooks b) ind only) \<and>
      hasRunnableTests ts only (hasOnly ts \<or> only) \<and>
      runSuite (Suite sn ts hooks b) ind only s = Inr (s', r')"
  then have calm: "list_all (\<lambda>st. list_all never_raises (step_hooks st)) (plan_suite (Suite sn ts hooks b) ind only)"
    and shown: "hasRunnableTests ts only (hasOnly ts \<or> only)"
    and run: "for_of exec_step (plan_suite (Suite sn ts hooks b) ind only) (s, no_result) = Inr (s', r')"
    by (simp_all add: runSuite_plan del: plan_suite.simps)
  have "concat (map step_calls (plan_suite (Suite sn ts hooks b) ind only)) =
        concat (map (\<lambda>t. map (HookCall sn) [0..<length hooks] @ [TestCall (node_name t)])
                      (testCases ts (hasOnly ts \<or> only)))
        @ concat (map (\<lambda>sub. concat (map step_calls (plan_suite sub (ind + 1) (hasOnly ts \<or> only))))
                      (subSuites ts))"
    using shown by (simp add: Let_def comp_def concat_map_concat)
  with plan_calls [OF calm run]
  show "calls s' = calls s
        @ concat (map (\<lambda>t. map (HookCall sn) [0..<length hooks] @ [TestCall (node_name t)])
                      (testCases ts (hasOnly ts \<or> only)))
        @ concat (map (\<lambda>sub. concat (map step_calls (plan_suite sub (ind + 1) (hasOnly ts \<or> only))))
                      (subSuites ts))"
    by simp
next
  assume "testCases ts (hasOnly ts \<or> only) = []"
  then show "runSuite (Suite sn ts hooks b) ind only s = runSuite (Suite sn ts hooks' b) ind only s"
    by (simp add: Let_def)
qed

theorem hooks_before_each_case_witness:
  "list_all (\<lambda>st. list_all never_raises (step_hooks st)) (plan_suite hooked_suite 1 False)
   \<and> runSuite hooked_suite 1 False (fresh []) =
     Inr (\<lparr>world = [''h1'', ''h2'', ''c1'', ''h1'', ''h2'', ''c2'', ''k'', ''d''],
           failureIndex = 1, failures = [],
           console = [''  G'', ''    '' @ check_mark @ '' c1'', ''    '' @ check_mark @ '' c2'',
                      ''    H'', ''      '' @ check_mark @ '' d''],
           calls = [HookCall ''G'' 0, HookCall ''G'' 1, TestCall ''c1'',
                    HookCall ''G'' 0, HookCall ''G'' 1, TestCall ''c2'',
                    HookCall ''H'' 0, TestCall ''d'']\<rparr>,
          \<lparr>passed = 3, failed = 0\<rparr>)"
proof -
  let ?ts = "[Test ''c1'' (writes ''c1'') False,
        Suite ''H'' [Test ''d'' (writes ''d'') False] [writes ''k''] False,
        Test ''c2'' (writes ''c2'') False]"
  let ?hooks = "[writes ''h1'', writes ''h2'']"
  have h: "hooked_suite = Suite ''G'' ?ts ?hooks False" by (simp add: hooked_suite_def)
  have quiet: "never_raises (writes nm)" for nm by (simp add: never_raises_def writes_def)
  have only: "hasOnly ?ts = False" by (simp add: hasOnly_def)
  have shown: "hasRunnableTests ?ts False (hasOnly ?ts \<or> False)"
    by (simp add: hasRunnableTests_def testCases_def only)
  have calm: "list_all (\<lambda>st. list_all never_raises (step_hooks st)) (plan_suite hooked_suite 1 False)"
    by (simp add: h only hasRunnableTests_def testCases_def subSuites_def hasOnly_def quiet)
  have run: "runSuite hooked_suite 1 False (fresh []) =
     Inr (\<lparr>world = [''h1'', ''h2'', ''c1'', ''h1'', ''h2'', ''c2'', ''k'', ''d''],
           failureIndex = 1, failures = [],
           console = [''  G'', ''    '' @ check_mark @ '' c1'', ''    '' @ check_mark @ '' c2'',
                      ''    H'', ''      '' @ check_mark @ '' d''],
           calls = [HookCall ''G'' 0, HookCall ''G'' 1, TestCall ''c1'',
                    HookCall ''G'' 0, HookCall ''G'' 1, TestCall ''c2'',
                    HookCall ''H'' 0, TestCall ''d'']\<rparr>,
          \<lparr>passed = 3, failed = 0\<rparr>)"
    by code_simp
  note rule = hooks_before_each_case [where sn = "''G''" and hooks = ?hooks and ts = ?ts and b = False
      and ind = 1 and only = False and s = "fresh []",
      THEN conjunct2, THEN conjunct2, THEN conjunct1, THEN mp, OF conjI, OF calm [unfolded h] conjI,
      OF shown run [unfolded h]]
  have "calls \<lparr>world = [''h1'', ''h2'', ''c1'', ''h1'', ''h2'', ''c2'', ''k'', ''d''],
           failureIndex = 1, failures = [],
           console = [''  G'', ''    '' @ check_mark @ '' c1'', ''    '' @ check_mark @ '' c2'',
                      ''    H'', ''      '' @ check_mark @ '' d''],
           calls = [HookCall ''G'' 0, HookCall ''G'' 1, TestCall ''c1'',
                    HookCall ''G'' 0, HookCall ''G'' 1, TestCall ''c2'',
                    HookCall ''H'' 0, TestCall ''d'']\<rparr>
        = calls (fresh ([] :: string list)) @
       concat (map (\<lambda>t. map (HookCall ''G'') [0..<length ?hooks] @ [TestCall (node_name t)])
                   (testCases ?ts (hasOnly ?ts \<or> False))) @
       concat (map (\<lambda>sub. concat (map step_calls (plan_suite sub (1 + 1) (hasOnly ?ts \<or> False)))) (subSuites ?ts))"
    by (rule rule)
  with calm run show ?thesis by (intro conjI)
qed

subsection \<open>C8: the message of a failure record\<close>

text \<open>
  Claim C8 as stated says that the placeholder \<^verbatim>\<open>undefined\<close> stands for a missing message
  in the record and also in the detail string of the trailing block. For a test that
  raises a value without a message the record holds \<^verbatim>\<open>undefined\<close> as message, and the
  detail string, which is what the trailing block prints, ends in \<^verbatim>\<open>No message\<close>.
\<close>

theorem placeholder_counterexample:
  "runTests silent_failure (fresh ()) =
     Inr \<lparr>world = (), failureIndex = 2,
          failures = [\<lparr>index = 1, name = ''t'', message = ''undefined'', indent = 0,
                       details = ''AssertionError [ERR_ASSERTION]: No message''\<rparr>],
          console = [''  1) t'', line_feed @ ''  0 passing'', ''  1 failing'',
                     line_feed @ ''  1) t:'' @ line_feed,
                     ''      AssertionError [ERR_ASSERTION]: No message''],
          calls = [TestCall ''t'']\<rparr>"
  by code_simp

text \<open>
  Claim C8, amended. For every Case whose failure is recorded, in a suite or at top
  level, the record carries the name of the Case and the current failure index, and its
  message is the message of the raised value, or the placeholder \<^verbatim>\<open>undefined\<close> when
  the raised value has no message or an empty one. The trailing block prints the index,
  the name and the detail string of each record, not its message, and the detail string
  has a placeholder of its own, \<^verbatim>\<open>No message\<close>.
\<close>

theorem failure_message_rule:
  "(try_calls sn hooks t s = (Some err, s1) \<and> run_test sn hooks ind t (s, r) = Inr (s', r') \<longrightarrow>
      (\<exists>m f. err = Thrown m \<and> failures s' = failures s @ [f] \<and>
         name f = node_name t \<and> index f = failureIndex s \<and>
         message f = (case m of None \<Rightarrow> ''undefined'' | Some txt \<Rightarrow> if txt = [] then ''undefined'' else txt) \<and>
         failure_lines f =
           [line_feed @ ''  '' @ show_nat (failureIndex s) @ '') '' @ node_name t @ '':'' @ line_feed,
            ''      AssertionError [ERR_ASSERTION]: '' @
              (case m of None \<Rightarrow> ''No message'' | Some txt \<Rightarrow> if txt = [] then ''No message'' else txt)]))
   \<and> (invoke (TestCall (node_name t)) (node_fn t) s = (Some err, s1) \<and>
      run_top_test False t (s, r) = Inr (s', r') \<longrightarrow>
      (\<exists>m f. err = Thrown m \<and> failures s' = failures s @ [f] \<and>
         name f = node_name t \<and> index f = failureIndex s \<and>
         message f = (case m of None \<Rightarrow> ''undefined'' | Some txt \<Rightarrow> if txt = [] then ''undefined'' else txt) \<and>
         failure_lines f =
           [line_feed @ ''  '' @ show_nat (failureIndex s) @ '') '' @ node_name t @ '':'' @ line_feed,
            ''      AssertionError [ERR_ASSERTION]: '' @
              (case m of None \<Rightarrow> ''No message'' | Some txt \<Rightarrow> if txt = [] then ''No message'' else txt)]))
   \<and> (0 < failed totals \<longrightarrow>
        console (report s2 totals) =
          console s2 @ [line_feed @ ''  '' @ show_nat (passed totals) @ '' passing'',
                        ''  '' @ show_nat (failed totals) @ '' failing'']
            @ concat (map failure_lines (failures s2)))"
proof (intro conjI impI)
  assume a: "try_calls sn hooks t s = (Some err, s1) \<and> run_test sn hooks ind t (s, r) = Inr (s', r')"
  then have "on_catch (repeat_indent (ind + 1)) (ind + 1) (node_name t) err (s1, r) = Inr (s', r')"
    by (auto simp: run_test_def)
  from on_catch_Inr [OF this] a try_calls_frame [of sn hooks t s "Some err" s1]
  show "\<exists>m f. err = Thrown m \<and> failures s' = failures s @ [f] \<and>
         name f = node_name t \<and> index f = failureIndex s \<and>
         message f = (case m of None \<Rightarrow> ''undefined'' | Some txt \<Rightarrow> if txt = [] then ''undefined'' else txt) \<and>
         failure_lines f =
           [line_feed @ ''  '' @ show_nat (failureIndex s) @ '') '' @ node_name t @ '':'' @ line_feed,
            ''      AssertionError [ERR_ASSERTION]: '' @
              (case m of None \<Rightarrow> ''No message'' | Some txt \<Rightarrow> if txt = [] then ''No message'' else txt)]"
    by (auto simp: message_or_cases failure_lines_def)
next
  assume a: "invoke (TestCall (node_name t)) (node_fn t) s = (Some err, s1) \<and>
      run_top_test False t (s, r) = Inr (s', r')"
  then have "on_catch ''  '' 0 (node_name t) err (s1, r) = Inr (s', r')"
    by (auto simp: run_top_test_def)
  from on_catch_Inr [OF this] a invoke_frame [of "TestCall (node_name t)" "node_fn t" s "Some err" s1]
  show "\<exists>m f. err = Thrown m \<and> failures s' = failures s @ [f] \<and>
         name f = node_name t \<and> index f = failureIndex s \<and>
         message f = (case m of None \<Rightarrow> ''undefined'' | Some txt \<Rightarrow> if txt = [] then ''undefined'' else txt) \<and>
         failure_lines f =
           [line_feed @ ''  '' @ show_nat (failureIndex s) @ '') '' @ node_name t @ '':'' @ line_feed,
            ''      AssertionError [ERR_ASSERTION]: '' @
              (case m of None \<Rightarrow> ''No message'' | Some txt \<Rightarrow> if txt = [] then ''No message'' else txt)]"
    by (auto simp: message_or_cases failure_lines_def)
next
  assume "0 < failed totals"
  then show "console (report s2 totals) =
          console s2 @ [line_feed @ ''  '' @ show_nat (passed totals) @ '' passing'',
                        ''  '' @ show_nat (failed totals) @ '' failing'']
            @ concat (map failure_lines (failures s2))"
    by (simp add: console_report)
qed

theorem failure_message_rule_witness:
  "invoke (TestCall ''b'') (raises (Thrown (Some ''boom''))) (fresh ()) =
     (Some (Thrown (Some ''boom'')),
      \<lparr>world = (), failureIndex = 1, failures = [], console = [], calls = [TestCall ''b'']\<rparr>)
   \<and> run_top_test False (Test ''b'' (raises (Thrown (Some ''boom''))) False) (fresh (), no_result) =
     Inr (\<lparr>world = (), failureIndex = 2,
           failures = [\<lparr>index = 1, name = ''b'', message = ''boom'', indent = 0,
                        details = ''AssertionError [ERR_ASSERTION]: boom''\<rparr>],
           console = [''  1) b''], calls = [TestCall ''b'']\<rparr>,
          \<lparr>passed = 0, failed = 1\<rparr>)"
proof -
  let ?t = "Test ''b'' (raises (Thrown (Some ''boom''))) False :: unit node"
  have a: "invoke (TestCall (node_name ?t)) (node_fn ?t) (fresh ()) =
     (Some (Thrown (Some ''boom'')),
      \<lparr>world = (), failureIndex = 1, failures = [], console = [], calls = [TestCall ''b'']\<rparr>)"
    by code_simp
  have b: "run_top_test False ?t (fresh (), no_result) =
     Inr (\<lparr>world = (), failureIndex = 2,
           failures = [\<lparr>index = 1, name = ''b'', message = ''boom'', indent = 0,
                        details = ''AssertionError [ERR_ASSERTION]: boom''\<rparr>],
           console = [''  1) b''], calls = [TestCall ''b'']\<rparr>,
          \<lparr>passed = 0, failed = 1\<rparr>)"
    by code_simp
  note rule = failure_message_rule [of _ _ ?t "fresh ()" "Thrown (Some ''boom'')" _ _ no_result,
      THEN conjunct2, THEN conjunct1, THEN mp, OF conjI, OF a b]
  have "\<exists>m f. Thrown (Some ''boom'') = Thrown m \<and>
          failures \<lparr>world = (), failureIndex = 2,
           failures = [\<lparr>index = 1, name = ''b'', message = ''boom'', indent = 0,
                        details = ''AssertionError [ERR_ASSERTION]: boom''\<rparr>],
           console = [''  1) b''], calls = [TestCall ''b'']\<rparr> = failures (fresh ()) @ [f] \<and>
          name f = node_name ?t \<and> index f = failureIndex (fresh ()) \<and>
          message f = (case m of None \<Rightarrow> ''undefined'' | Some txt \<Rightarrow> if txt = [] then ''undefined'' else txt) \<and>
          failure_lines f =
           [line_feed @ ''  '' @ show_nat (failureIndex (fresh ())) @ '') '' @ node_name ?t @ '':'' @ line_feed,
            ''      AssertionError [ERR_ASSERTION]: '' @
              (case m of None \<Rightarrow> ''No message'' | Some txt \<Rightarrow> if txt = [] then ''No message'' else txt)]"
    by (rule rule)
  with a b show ?thesis by simp
qed

subsection \<open>C9: the scenario of the specification\<close>

text \<open>
  Claim C9. For the forest [Case a that passes, Group G of Case b that fails with message
  boom and Case c that passes], a run prints, in this order: the line with the check mark
  and a; the line G, indented; the line 1) b, indented further; the line with the check
  mark and c; the summary with 2 passing and 1 failing; and a detail block for failure 1
  that names b and contains boom.
\<close>

theorem scenario_report:
  "runTests scenario (fresh ()) =
     Inr \<lparr>world = (), failureIndex = 2,
          failures = [\<lparr>index = 1, name = ''b'', message = ''boom'', indent = 2,
                       details = ''AssertionError [ERR_ASSERTION]: boom''\<rparr>],
          console =
            [check_mark @ '' a'',
             ''  G'',
             ''    1) b'',
             ''    '' @ check_mark @ '' c'',
             line_feed @ ''  2 passing'',
             ''  1 failing'',
             line_feed @ ''  1) b:'' @ line_feed,
             ''      AssertionError [ERR_ASSERTION]: boom''],
          calls = [TestCall ''a'', TestCall ''b'', TestCall ''c'']\<rparr>"
  by code_simp

subsection \<open>C10: the detail string of a failure record\<close>

text \<open>
  Claim C10 as stated says that the detail string is the label followed by the message of
  the failure, and that \<^verbatim>\<open>No message\<close> stands in when the message field is absent. For
  a test that raises an error whose message is there and empty, the detail string is not
  the label followed by the empty message: it ends in \<^verbatim>\<open>No message\<close>.
\<close>

theorem empty_message_counterexample:
  "runTests empty_message_failure (fresh ()) =
     Inr \<lparr>world = (), failureIndex = 2,
          failures = [\<lparr>index = 1, name = ''e'', message = ''undefined'', indent = 0,
                       details = ''AssertionError [ERR_ASSERTION]: No message''\<rparr>],
          console = [''  1) e'', line_feed @ ''  0 passing'', ''  1 failing'',
                     line_feed @ ''  1) e:'' @ line_feed,
                     ''      AssertionError [ERR_ASSERTION]: No message''],
          calls = [TestCall ''e'']\<rparr>"
  by code_simp

text \<open>
  Claim C10, amended. For every failing Case whose failure is recorded, in a suite or at
  top level, whatever the hook or the body raised, the detail string of its Failure Record
  is \<^verbatim>\<open>AssertionError [ERR_ASSERTION]: \<close> followed by the message of the raised value,
  or by \<^verbatim>\<open>No message\<close> when the message is absent or empty (the \<^verbatim>\<open>||\<close> of the source
  does not tell \<^verbatim>\<open>undefined\<close> and the empty string apart). The label is the same for
  every raised value, and the fallback differs from the one of the message field, which
  is \<^verbatim>\<open>undefined\<close>. Every raised value that has properties gets a record, and every
  record that a run from a fresh state leaves, complete or not, has this form.
\<close>

theorem detail_string_rule:
  "(try_calls sn hooks t s = (Some err, s1) \<and> run_test sn hooks ind t (s, r) = Inr (s', r') \<longrightarrow>
      (\<exists>m f. err = Thrown m \<and> failures s' = failures s @ [f] \<and>
         details f = ''AssertionError [ERR_ASSERTION]: '' @
           (case m of None \<Rightarrow> ''No message'' | Some txt \<Rightarrow> if txt = [] then ''No message'' else txt) \<and>
         (m = None \<longrightarrow> message f = ''undefined'' \<and>
                      details f \<noteq> ''AssertionError [ERR_ASSERTION]: '' @ message f)))
   \<and> (invoke (TestCall (node_name t)) (node_fn t) s = (Some err, s1) \<and>
      run_top_test False t (s, r) = Inr (s', r') \<longrightarrow>
      (\<exists>m f. err = Thrown m \<and> failures s' = failures s @ [f] \<and>
         details f = ''AssertionError [ERR_ASSERTION]: '' @
           (case m of None \<Rightarrow> ''No message'' | Some txt \<Rightarrow> if txt = [] then ''No message'' else txt) \<and>
         (m = None \<longrightarrow> message f = ''undefined'' \<and>
                      details f \<noteq> ''AssertionError [ERR_ASSERTION]: '' @ message f)))
   \<and> (try_calls sn hooks t s = (Some (Thrown m0), s1) \<longrightarrow>
        (\<exists>s' r'. run_test sn hooks ind t (s, r) = Inr (s', r')))
   \<and> (invoke (TestCall (node_name t)) (node_fn t) s = (Some (Thrown m0), s1) \<longrightarrow>
        (\<exists>s' r'. run_top_test False t (s, r) = Inr (s', r')))
   \<and> list_all recorded_form (failures (last_state (run_forest tests (fresh w))))"
proof (intro conjI impI)
  assume a: "try_calls sn hooks t s = (Some err, s1) \<and> run_test sn hooks ind t (s, r) = Inr (s', r')"
  then have "on_catch (repeat_indent (ind + 1)) (ind + 1) (node_name t) err (s1, r) = Inr (s', r')"
    by (auto simp: run_test_def)
  from on_catch_Inr [OF this] a try_calls_frame [of sn hooks t s "Some err" s1]
  show "\<exists>m f. err = Thrown m \<and> failures s' = failures s @ [f] \<and>
         details f = ''AssertionError [ERR_ASSERTION]: '' @
           (case m of None \<Rightarrow> ''No message'' | Some txt \<Rightarrow> if txt = [] then ''No message'' else txt) \<and>
         (m = None \<longrightarrow> message f = ''undefined'' \<and>
                      details f \<noteq> ''AssertionError [ERR_ASSERTION]: '' @ message f)"
    by (auto simp: message_or_cases)
next
  assume a: "invoke (TestCall (node_name t)) (node_fn t) s = (Some err, s1) \<and>
      run_top_test False t (s, r) = Inr (s', r')"
  then have "on_catch ''  '' 0 (node_name t) err (s1, r) = Inr (s', r')"
    by (auto simp: run_top_test_def)
  from on_catch_Inr [OF this] a invoke_frame [of "TestCall (node_name t)" "node_fn t" s "Some err" s1]
  show "\<exists>m f. err = Thrown m \<and> failures s' = failures s @ [f] \<and>
         details f = ''AssertionError [ERR_ASSERTION]: '' @
           (case m of None \<Rightarrow> ''No message'' | Some txt \<Rightarrow> if txt = [] then ''No message'' else txt) \<and>
         (m = None \<longrightarrow> message f = ''undefined'' \<and>
                      details f \<noteq> ''AssertionError [ERR_ASSERTION]: '' @ message f)"
    by (auto simp: message_or_cases)
next
  assume "try_calls sn hooks t s = (Some (Thrown m0), s1)"
  then show "\<exists>s' r'. run_test sn hooks ind t (s, r) = Inr (s', r')"
    by (simp add: run_test_def on_catch_Thrown)
next
  assume "invoke (TestCall (node_name t)) (node_fn t) s = (Some (Thrown m0), s1)"
  then show "\<exists>s' r'. run_top_test False t (s, r) = Inr (s', r')"
    by (simp add: run_top_test_def on_catch_Thrown)
next
  show "list_all recorded_form (failures (last_state (run_forest tests (fresh w))))"
    by (rule run_records)
qed

theorem detail_string_rule_witness:
  "try_calls ''G'' [] (Test ''t'' (raises (Thrown None)) False) (fresh ()) =
     (Some (Thrown None),
      \<lparr>world = (), failureIndex = 1, failures = [], console = [], calls = [TestCall ''t'']\<rparr>)
   \<and> run_test ''G'' [] 1 (Test ''t'' (raises (Thrown None)) False) (fresh (), no_result) =
     Inr (\<lparr>world = (), failureIndex = 2,
           failures = [\<lparr>index = 1, name = ''t'', message = ''undefined'', indent = 2,
                        details = ''AssertionError [ERR_ASSERTION]: No message''\<rparr>],
           console = [''    1) t''], calls = [TestCall ''t'']\<rparr>,
          \<lparr>passed = 0, failed = 1\<rparr>)"
proof -
  let ?t = "Test ''t'' (raises (Thrown None)) False :: unit node"
  have a: "try_calls ''G'' [] ?t (fresh ()) =
     (Some (Thrown None),
      \<lparr>world = (), failureIndex = 1, failures = [], console = [], calls = [TestCall ''t'']\<rparr>)"
    by code_simp
  have b: "run_test ''G'' [] 1 ?t (fresh (), no_result) =
     Inr (\<lparr>world = (), failureIndex = 2,
           failures = [\<lparr>index = 1, name = ''t'', message = ''undefined'', indent = 2,
                        details = ''AssertionError [ERR_ASSERTION]: No message''\<rparr>],
           console = [''    1) t''], calls = [TestCall ''t'']\<rparr>,
          \<lparr>passed = 0, failed = 1\<rparr>)"
    by code_simp
  note rule = detail_string_rule [of "''G''" "[]" ?t "fresh ()" "Thrown None" _ 1 no_result,
      THEN conjunct1, THEN mp, OF conjI, OF a b]
  have "\<exists>m f. Thrown None = Thrown m \<and>
          failures \<lparr>world = (), failureIndex = 2,
           failures = [\<lparr>index = 1, name = ''t'', message = ''undefined'', indent = 2,
                        details = ''AssertionError [ERR_ASSERTION]: No message''\<rparr>],
           console = [''    1) t''], calls = [TestCall ''t'']\<rparr> = failures (fresh ()) @ [f] \<and>
          details f = ''AssertionError [ERR_ASSERTION]: '' @
            (case m of None \<Rightarrow> ''No message'' | Some txt \<Rightarrow> if txt = [] then ''No message'' else txt) \<and>
          (m = None \<longrightarrow> message f = ''undefined'' \<and>
                      details f \<noteq> ''AssertionError [ERR_ASSERTION]: '' @ message f)"
    by (rule rule)
  with a b show ?thesis by (intro conjI)
qed

end
